theory Spec2Isabelle
  imports Main "HOL-Library.Signed_Division"
begin

section \<open>A backtracking Sudoku solver (sudoku.c)\<close>

text \<open>
  The C program keeps one \<^verbatim>\<open>struct board\<close>: a counter of unset cells, a matrix of
  cells and, for every row, column and square, a \<^verbatim>\<open>candidates\<close> array that marks the values
  already used there. Every cell points at the three arrays it belongs to, so the arrays are
  shared between cells; the embedding keeps the pointers and an explicit store.

  C \<^verbatim>\<open>int\<close> is modelled by \<^typ>\<open>int\<close>: every number the program computes lies between
  \<open>-1\<close> and \<open>81\<close>. C division and remainder truncate towards zero, hence \<open>sdiv\<close> and
  \<open>smod\<close>. An array \<^verbatim>\<open>T a[ARRAY_SIZE]\<close> is a function from the index to the element;
  the program only ever indexes with \<open>1..9\<close>.
\<close>

subsection \<open>Constants\<close>

definition SUBDIMENSION :: int where
  "SUBDIMENSION = 3"

definition MIN_NUM :: int where
  "MIN_NUM = 1"

definition MAX_NUM :: int where
  "MAX_NUM = 9"

definition TOTAL_NUMS :: int where
  "TOTAL_NUMS = 9"

definition ARRAY_SIZE :: int where
  "ARRAY_SIZE = MIN_NUM + TOTAL_NUMS"

subsection \<open>Candidates, cells and boards\<close>

type_synonym candidates = "int \<Rightarrow> int"

text \<open>A \<^verbatim>\<open>candidates *\<close> is the address of one array of the board:
  \<^verbatim>\<open>b->rows + i\<close>, \<^verbatim>\<open>b->columns + i\<close> or \<^verbatim>\<open>b->squares + i\<close>.\<close>

datatype cand_ptr = Rows int | Columns int | Squares int

record cell =
  has_value :: int
  value' :: int
  row_candidates :: cand_ptr
  col_candidates :: cand_ptr
  square_candidates :: cand_ptr

record board =
  unset_cells :: int
  cells :: "int \<Rightarrow> int \<Rightarrow> cell"
  rows :: "int \<Rightarrow> candidates"
  columns :: "int \<Rightarrow> candidates"
  squares :: "int \<Rightarrow> candidates"

text \<open>Reading through a pointer, \<^verbatim>\<open>(*cp)\<close>, and writing one element through it,
  \<^verbatim>\<open>(*cp)[num] = v\<close>.\<close>

fun deref :: "board \<Rightarrow> cand_ptr \<Rightarrow> candidates" where
  "deref b (Rows i) = rows b i"
| "deref b (Columns i) = columns b i"
| "deref b (Squares i) = squares b i"

fun poke :: "board \<Rightarrow> cand_ptr \<Rightarrow> int \<Rightarrow> int \<Rightarrow> board" where
  "poke b (Rows i) num v = b\<lparr>rows := (rows b)(i := (rows b i)(num := v))\<rparr>"
| "poke b (Columns i) num v = b\<lparr>columns := (columns b)(i := (columns b i)(num := v))\<rparr>"
| "poke b (Squares i) num v = b\<lparr>squares := (squares b)(i := (squares b i)(num := v))\<rparr>"

definition init_candidates :: "board \<Rightarrow> cand_ptr \<Rightarrow> board" where
  "init_candidates b cp = fold (\<lambda>i b'. poke b' cp i 0) [MIN_NUM..MAX_NUM] b"

definition use_candidate :: "board \<Rightarrow> cand_ptr \<Rightarrow> int \<Rightarrow> board" where
  "use_candidate b cp num = poke b cp num 1"

definition restore_candidate :: "board \<Rightarrow> cand_ptr \<Rightarrow> int \<Rightarrow> board" where
  "restore_candidate b cp num = poke b cp num 0"

definition square :: "int \<Rightarrow> int \<Rightarrow> int" where
  "square row col =
     (((row - 1) sdiv SUBDIMENSION) * SUBDIMENSION) + ((col - 1) sdiv SUBDIMENSION) + 1"

text \<open>The body of the inner loop of \<^verbatim>\<open>init_board\<close>: the five fields of one cell.\<close>

definition init_cell :: "int \<Rightarrow> int \<Rightarrow> board \<Rightarrow> board" where
  "init_cell i j b =
     b\<lparr>cells := (cells b)(i := (cells b i)(j :=
        (cells b i j)\<lparr>has_value := 0, value' := 0,
          row_candidates := Rows i, col_candidates := Columns j,
          square_candidates := Squares (square i j)\<rparr>))\<rparr>"

definition init_row :: "int \<Rightarrow> board \<Rightarrow> board" where
  "init_row i b =
     fold (init_cell i) [MIN_NUM..MAX_NUM]
       (init_candidates (init_candidates (init_candidates b (Rows i)) (Columns i)) (Squares i))"

definition init_board :: "board \<Rightarrow> board" where
  "init_board b = fold init_row [MIN_NUM..MAX_NUM] (b\<lparr>unset_cells := TOTAL_NUMS * TOTAL_NUMS\<rparr>)"

text \<open>The test \<^verbatim>\<open>(! (*r)[i]) && (! (*c)[i]) && (! (*s)[i])\<close>: value \<open>i\<close> is unused in
  all three arrays.\<close>

definition common_free :: "candidates \<Rightarrow> candidates \<Rightarrow> candidates \<Rightarrow> int \<Rightarrow> bool" where
  "common_free r c s i = (r i = 0 \<and> c i = 0 \<and> s i = 0)"

text \<open>The \<^verbatim>\<open>for\<close> loop of \<^verbatim>\<open>find_common_free\<close>, with \<open>i\<close> the loop variable; \<open>-1\<close> is
  returned when the loop runs out.\<close>

function find_common_free :: "candidates \<Rightarrow> candidates \<Rightarrow> candidates \<Rightarrow> int \<Rightarrow> int" where
  "find_common_free r c s i =
     (if i \<le> MAX_NUM
      then (if common_free r c s i then i else find_common_free r c s (i + 1))
      else - 1)"
  by pat_completeness auto
termination
  by (relation "measure (\<lambda>(r, c, s, i). nat (MAX_NUM + 1 - i))") auto

definition set_cell :: "board \<Rightarrow> int \<Rightarrow> int \<Rightarrow> int \<Rightarrow> board" where
  "set_cell b r c val =
     (let b1 = b\<lparr>unset_cells := unset_cells b - 1\<rparr>;
          b2 = b1\<lparr>cells := (cells b1)(r := (cells b1 r)(c :=
                 (cells b1 r c)\<lparr>has_value := 1, value' := val\<rparr>))\<rparr>;
          b3 = use_candidate b2 (row_candidates (cells b2 r c)) val;
          b4 = use_candidate b3 (col_candidates (cells b3 r c)) val
      in use_candidate b4 (square_candidates (cells b4 r c)) val)"

definition unset_cell :: "board \<Rightarrow> int \<Rightarrow> int \<Rightarrow> int \<Rightarrow> board" where
  "unset_cell b r c val =
     (let b1 = b\<lparr>unset_cells := unset_cells b + 1\<rparr>;
          b2 = b1\<lparr>cells := (cells b1)(r := (cells b1 r)(c :=
                 (cells b1 r c)\<lparr>has_value := 0, value' := 0\<rparr>))\<rparr>;
          b3 = restore_candidate b2 (row_candidates (cells b2 r c)) val;
          b4 = restore_candidate b3 (col_candidates (cells b3 r c)) val
      in restore_candidate b4 (square_candidates (cells b4 r c)) val)"

definition is_set :: "board \<Rightarrow> int \<Rightarrow> int \<Rightarrow> int" where
  "is_set b r c = has_value (cells b r c)"

definition following :: "int \<Rightarrow> int" where
  "following num = (num - MIN_NUM + 1) smod TOTAL_NUMS + MIN_NUM"

text \<open>\<^verbatim>\<open>next_cell\<close> returns its result together with the two variables it writes through
  its pointer arguments.\<close>

definition next_cell :: "int \<Rightarrow> int \<Rightarrow> int \<times> int \<times> int" where
  "next_cell r c =
     (if r = MAX_NUM \<and> c = MAX_NUM then (0, r, c)
      else (let c' = following c;
                r' = (if c' = MIN_NUM then following r else r)
            in (1, r', c')))"

text \<open>The loop \<^verbatim>\<open>while (is_set(b, r, c) && next_cell(&r, &c));\<close> returns the position it
  stops at. Not returning is the value \<open>None\<close>.\<close>

partial_function (option) find_unset :: "board \<Rightarrow> int \<Rightarrow> int \<Rightarrow> (int \<times> int) option" where
  "find_unset b r c =
     (if is_set b r c \<noteq> 0
      then (case next_cell r c of
              (ret, r', c') \<Rightarrow> if ret \<noteq> 0 then find_unset b r' c' else Some (r', c'))
      else Some (r, c))"

declare find_unset.simps [code]

text \<open>
  \<^verbatim>\<open>solve_board\<close> and its \<^verbatim>\<open>while (1)\<close> loop (\<open>try_values\<close>, with the loop variable
  \<open>prev\<close>) call each other. The first argument is fuel: every call and every loop iteration
  uses one unit, and \<open>None\<close> means that the fuel ran out. The result is the returned
  \<^verbatim>\<open>int\<close> and the board as the call leaves it. Printing the solved board does not change
  it and is left out.
\<close>

fun solve_board :: "nat \<Rightarrow> board \<Rightarrow> int \<Rightarrow> int \<Rightarrow> (int \<times> board) option"
  and try_values :: "nat \<Rightarrow> board \<Rightarrow> int \<Rightarrow> int \<Rightarrow> int \<Rightarrow> (int \<times> board) option" where
  "solve_board 0 b r c = None"
| "solve_board (Suc n) b r c =
     (if unset_cells b = 0 then Some (1, b)
      else (case find_unset b r c of
              None \<Rightarrow> None
            | Some (r', c') \<Rightarrow>
                if is_set b r' c' \<noteq> 0 then Some (1, b)
                else try_values n b r' c' MIN_NUM))"
| "try_values 0 b r c prev = None"
| "try_values (Suc n) b r c prev =
     (let val = find_common_free (deref b (row_candidates (cells b r c)))
                  (deref b (col_candidates (cells b r c)))
                  (deref b (square_candidates (cells b r c))) prev
      in if val = - 1 then Some (0, b)
         else (case solve_board n (set_cell b r c val) r c of
                 None \<Rightarrow> None
               | Some (ret, b') \<Rightarrow>
                   if ret \<noteq> 0 then Some (1, b')
                   else try_values n (unset_cell b' r c val) r c (val + 1)))"

subsection \<open>Reading a board\<close>

text \<open>A \<^verbatim>\<open>FILE\<close> open for reading: the bytes not yet read and the end-of-file indicator,
  which \<^verbatim>\<open>fgetc\<close> sets when it is asked for a byte and none is left.\<close>

record FILE =
  unread :: "char list"
  eof_indicator :: bool

definition EOF :: int where
  "EOF = - 1"

definition feof :: "FILE \<Rightarrow> bool" where
  "feof f = eof_indicator f"

definition fgetc :: "FILE \<Rightarrow> int \<times> FILE" where
  "fgetc f =
     (case unread f of
        [] \<Rightarrow> (EOF, f\<lparr>eof_indicator := True\<rparr>)
      | x # xs \<Rightarrow> (of_char x, f\<lparr>unread := xs\<rparr>))"

definition isdigit :: "int \<Rightarrow> bool" where
  "isdigit c = (of_char CHR ''0'' \<le> c \<and> c \<le> of_char CHR ''9'')"

text \<open>The loop of \<^verbatim>\<open>read_board\<close>, with the variables \<open>row\<close> and \<open>col\<close>.\<close>

function read_loop :: "FILE \<Rightarrow> board \<Rightarrow> int \<Rightarrow> int \<Rightarrow> board" where
  "read_loop f b row col =
     (if feof f then b
      else (case fgetc f of
              (c, f') \<Rightarrow>
                if (isdigit c \<and> c \<noteq> of_char CHR ''0'') \<or> c = of_char CHR ''.''
                then (let b' = (if c \<noteq> of_char CHR ''.''
                                then set_cell b row col (c - of_char CHR ''0'') else b)
                      in (case next_cell row col of
                            (ret, row', col') \<Rightarrow>
                              if ret = 0 then b' else read_loop f' b' row' col'))
                else read_loop f' b row col))"
  by pat_completeness auto
termination
  by (relation "measure (\<lambda>(f, b, row, col). length (unread f) + (if eof_indicator f then 0 else 1))")
     (auto simp: fgetc_def feof_def split: list.splits)

definition read_board :: "FILE \<Rightarrow> board \<Rightarrow> board" where
  "read_board f b = read_loop f b MIN_NUM MIN_NUM"

subsection \<open>Board states and their properties\<close>

text \<open>The numbers \<open>MIN_NUM..MAX_NUM\<close> that the assertions of the program allow for rows,
  columns and values, and the cell positions of the grid.\<close>

definition nums :: "int set" where
  "nums = {MIN_NUM..MAX_NUM}"

definition positions :: "(int \<times> int) set" where
  "positions = nums \<times> nums"

text \<open>Cell \<open>(r, c)\<close> currently holds value \<open>v\<close>.\<close>

definition holds :: "board \<Rightarrow> int \<Rightarrow> int \<Rightarrow> int \<Rightarrow> bool" where
  "holds b r c v = (is_set b r c \<noteq> 0 \<and> value' (cells b r c) = v)"

definition unset_positions :: "board \<Rightarrow> (int \<times> int) set" where
  "unset_positions b = Set.filter (\<lambda>(r, c). is_set b r c = 0) positions"

text \<open>The board invariant: a value is marked in the array of a row, column or square exactly
  when a cell there holds it, and the counter is the number of cells without a value.\<close>

definition board_invariant :: "board \<Rightarrow> bool" where
  "board_invariant b =
     ((\<forall>i\<in>nums. \<forall>v\<in>nums. (rows b i v \<noteq> 0) = (\<exists>c\<in>nums. holds b i c v)) \<and>
      (\<forall>j\<in>nums. \<forall>v\<in>nums. (columns b j v \<noteq> 0) = (\<exists>r\<in>nums. holds b r j v)) \<and>
      (\<forall>k\<in>nums. \<forall>v\<in>nums.
         (squares b k v \<noteq> 0) = (\<exists>r\<in>nums. \<exists>c\<in>nums. square r c = k \<and> holds b r c v)) \<and>
      unset_cells b = int (card (unset_positions b)))"

text \<open>The preconditions of \<^verbatim>\<open>set_cell\<close> and \<^verbatim>\<open>unset_cell\<close>: the ranges of their
  assertions; for \<^verbatim>\<open>set_cell\<close> the cell is unset and the value unused in the three arrays of
  the cell, for \<^verbatim>\<open>unset_cell\<close> the cell holds the value.\<close>

definition can_set :: "board \<Rightarrow> int \<Rightarrow> int \<Rightarrow> int \<Rightarrow> bool" where
  "can_set b r c val =
     (r \<in> nums \<and> c \<in> nums \<and> val \<in> nums \<and> is_set b r c = 0 \<and>
      common_free (deref b (row_candidates (cells b r c))) (deref b (col_candidates (cells b r c)))
        (deref b (square_candidates (cells b r c))) val)"

definition can_unset :: "board \<Rightarrow> int \<Rightarrow> int \<Rightarrow> int \<Rightarrow> bool" where
  "can_unset b r c val = (r \<in> nums \<and> c \<in> nums \<and> val \<in> nums \<and> holds b r c val)"

text \<open>The board states of the program: \<^verbatim>\<open>init_board\<close> on the (uninitialised) variable,
  then calls of \<^verbatim>\<open>set_cell\<close> and \<^verbatim>\<open>unset_cell\<close> under their preconditions.\<close>

inductive reachable :: "board \<Rightarrow> bool" where
  init: "reachable (init_board b0)"
| set: "reachable b \<Longrightarrow> can_set b r c val \<Longrightarrow> reachable (set_cell b r c val)"
| unset: "reachable b \<Longrightarrow> can_unset b r c val \<Longrightarrow> reachable (unset_cell b r c val)"

text \<open>The assertions are compiled out unless \<^verbatim>\<open>ASSERT\<close> is defined, and \<^verbatim>\<open>read_board\<close>
  places the digits of its input without looking at the arrays. So the program also builds
  boards by calls whose arguments are in range but whose preconditions need not hold:
  \<open>built\<close> allows every such call of \<^verbatim>\<open>set_cell\<close> and \<^verbatim>\<open>unset_cell\<close>; \<open>placed\<close> are the
  boards whose set cells were all placed by \<^verbatim>\<open>set_cell\<close>, each on a cell that was unset (the
  value may already be in the row, column or square).\<close>

inductive built :: "board \<Rightarrow> bool" where
  init: "built (init_board b0)"
| set: "built b \<Longrightarrow> r \<in> nums \<Longrightarrow> c \<in> nums \<Longrightarrow> val \<in> nums \<Longrightarrow> built (set_cell b r c val)"
| unset: "built b \<Longrightarrow> r \<in> nums \<Longrightarrow> c \<in> nums \<Longrightarrow> val \<in> nums \<Longrightarrow> built (unset_cell b r c val)"

inductive placed :: "board \<Rightarrow> bool" where
  init: "placed (init_board b0)"
| set: "placed b \<Longrightarrow> r \<in> nums \<Longrightarrow> c \<in> nums \<Longrightarrow> val \<in> nums \<Longrightarrow> is_set b r c = 0 \<Longrightarrow>
     placed (set_cell b r c val)"

text \<open>What \<^verbatim>\<open>init_board\<close> establishes and no later call changes: the pointers of the
  cells.\<close>

definition linked :: "board \<Rightarrow> bool" where
  "linked b =
     (\<forall>r\<in>nums. \<forall>c\<in>nums.
        row_candidates (cells b r c) = Rows r \<and> col_candidates (cells b r c) = Columns c \<and>
        square_candidates (cells b r c) = Squares (square r c))"

text \<open>An unset cell has the value field \<open>0\<close>, a set cell a value of \<open>1..9\<close>.\<close>

definition tidy :: "board \<Rightarrow> bool" where
  "tidy b =
     (\<forall>r\<in>nums. \<forall>c\<in>nums.
        if is_set b r c = 0 then value' (cells b r c) = 0 else value' (cells b r c) \<in> nums)"

text \<open>No value is held twice in a row, a column or a square.\<close>

definition no_clash :: "board \<Rightarrow> bool" where
  "no_clash b =
     (\<forall>r\<in>nums. \<forall>c\<in>nums. \<forall>r'\<in>nums. \<forall>c'\<in>nums.
        is_set b r c \<noteq> 0 \<and> is_set b r' c' \<noteq> 0 \<and>
        value' (cells b r c) = value' (cells b r' c') \<and>
        (r = r' \<or> c = c' \<or> square r c = square r' c') \<longrightarrow> r = r' \<and> c = c')"

definition board_ok :: "board \<Rightarrow> bool" where
  "board_ok b = (linked b \<and> tidy b \<and> no_clash b \<and> board_invariant b)"

text \<open>Row-major order of positions, and: every cell before \<open>(r, c)\<close> is set.\<close>

definition before :: "int \<times> int \<Rightarrow> int \<times> int \<Rightarrow> bool" where
  "before p q = (fst p < fst q \<or> (fst p = fst q \<and> snd p < snd q))"

definition swept :: "board \<Rightarrow> int \<Rightarrow> int \<Rightarrow> bool" where
  "swept b r c = (\<forall>p\<in>positions. before p (r, c) \<longrightarrow> is_set b (fst p) (snd p) \<noteq> 0)"

text \<open>What the scan from \<open>(r, c)\<close> guarantees of the position \<open>(r', c')\<close> it stops at: it is
  not before \<open>(r, c)\<close>, every cell in between is set, and it is a set cell only at the last
  position of the grid.\<close>

definition scanned :: "board \<Rightarrow> int \<Rightarrow> int \<Rightarrow> int \<Rightarrow> int \<Rightarrow> bool" where
  "scanned b r c r' c' =
     (r' \<in> nums \<and> c' \<in> nums \<and> \<not> before (r', c') (r, c) \<and>
      (\<forall>p\<in>positions. \<not> before p (r, c) \<and> before p (r', c') \<longrightarrow> is_set b (fst p) (snd p) \<noteq> 0) \<and>
      (is_set b r' c' \<noteq> 0 \<longrightarrow> r' = 9 \<and> c' = 9))"

text \<open>Board \<open>b'\<close> has the counter, the set flags, the marks and the pointers of \<open>b\<close>.\<close>

definition restored :: "board \<Rightarrow> board \<Rightarrow> bool" where
  "restored b b' =
     (unset_cells b' = unset_cells b \<and> (\<forall>i j. is_set b' i j = is_set b i j) \<and>
      rows b' = rows b \<and> columns b' = columns b \<and> squares b' = squares b \<and>
      (\<forall>i j. row_candidates (cells b' i j) = row_candidates (cells b i j) \<and>
             col_candidates (cells b' i j) = col_candidates (cells b i j) \<and>
             square_candidates (cells b' i j) = square_candidates (cells b i j)))"

text \<open>Every cell that is set in \<open>b\<close> is the same cell in \<open>b'\<close>, at every index of the
  array.\<close>

definition set_cells_same :: "board \<Rightarrow> board \<Rightarrow> bool" where
  "set_cells_same b b' = (\<forall>i j. is_set b i j \<noteq> 0 \<longrightarrow> cells b' i j = cells b i j)"

text \<open>A board variable before \<^verbatim>\<open>init_board\<close> has run, here with every field zero (the
  pointers are arbitrary). It is the starting point of the concrete runs below.\<close>

definition zero_board :: board where
  "zero_board =
     \<lparr>unset_cells = 0,
      cells = (\<lambda>_ _. \<lparr>has_value = 0, value' = 0, row_candidates = Rows 0,
                 col_candidates = Columns 0, square_candidates = Squares 0\<rparr>),
      rows = (\<lambda>_ _. 0), columns = (\<lambda>_ _. 0), squares = (\<lambda>_ _. 0)\<rparr>"

text \<open>The board that \<^verbatim>\<open>read_board\<close> builds from the input \<^verbatim>\<open>55\<close>: two givens that clash in
  the first row. No sequence of calls under the preconditions leads to it.\<close>

definition clash_board :: board where
  "clash_board = set_cell (set_cell (init_board zero_board) 1 1 5) 1 2 5"

text \<open>A board with nine givens that has no solution: the cells \<open>(1, 1)\<close> and \<open>(1, 2)\<close>
  can only take \<open>8\<close> and \<open>9\<close>, and both values are already in column \<open>2\<close>.\<close>

definition stuck_board :: board where
  "stuck_board =
     set_cell (set_cell (set_cell (set_cell (set_cell (set_cell (set_cell (set_cell (set_cell
       (init_board zero_board) 1 3 1) 1 4 2) 1 5 3) 1 6 4) 1 7 5) 1 8 6) 1 9 7) 4 2 8) 5 2 9"

subsection \<open>Results of the search\<close>

text \<open>Every cell that is set in \<open>b\<close> is the same cell in \<open>b'\<close>.\<close>

definition kept :: "board \<Rightarrow> board \<Rightarrow> bool" where
  "kept b b' = (\<forall>i\<in>nums. \<forall>j\<in>nums. is_set b i j \<noteq> 0 \<longrightarrow> cells b' i j = cells b i j)"

text \<open>What a call of \<^verbatim>\<open>solve_board\<close> on \<open>b\<close> at \<open>(r, c)\<close> can return on a board that
  satisfies the invariant: failure with the board as it was, or success with a board that
  satisfies the invariant, keeps the set cells, has no unset cell when every cell before
  \<open>(r, c)\<close> was set, and is a board state of the program when \<open>b\<close> is one.\<close>

definition outcome :: "board \<Rightarrow> int \<Rightarrow> int \<Rightarrow> int \<Rightarrow> board \<Rightarrow> bool" where
  "outcome b r c ret b' =
     ((ret = 0 \<and> b' = b) \<or>
      (ret = 1 \<and> board_ok b' \<and> kept b b' \<and> (swept b r c \<longrightarrow> unset_cells b' = 0) \<and>
       (reachable b \<longrightarrow> reachable b')))"

text \<open>The values of a row, of a column and of a square of the grid, and a solved grid: every
  cell is set and every row, column and square has each of \<open>1..9\<close> exactly once.\<close>

definition row_values :: "board \<Rightarrow> int \<Rightarrow> int list" where
  "row_values b i = map (\<lambda>j. value' (cells b i j)) [MIN_NUM..MAX_NUM]"


definition square_cells :: "int \<Rightarrow> (int \<times> int) list" where
  "square_cells k =
     filter (\<lambda>(i, j). square i j = k) (List.product [MIN_NUM..MAX_NUM] [MIN_NUM..MAX_NUM])"



text \<open>
  The calls of \<^verbatim>\<open>solve_board\<close> that a top-level call on \<open>b0\<close> at \<open>(MIN_NUM, MIN_NUM)\<close>
  makes, and the states in which control is at the head of its \<^verbatim>\<open>while (1)\<close> loop:
  \<open>called b0 b r c\<close> is a call with board \<open>b\<close> and position \<open>(r, c)\<close>;
  \<open>looping b0 b r c prev\<close> is the loop head for cell \<open>(r, c)\<close> with board \<open>b\<close> and floor
  \<open>prev\<close>. The loop is entered after the scan found an unset cell, makes a recursive call for
  the candidate it finds, and comes back to its head when that call has failed.
\<close>

inductive called :: "board \<Rightarrow> board \<Rightarrow> int \<Rightarrow> int \<Rightarrow> bool"
  and looping :: "board \<Rightarrow> board \<Rightarrow> int \<Rightarrow> int \<Rightarrow> int \<Rightarrow> bool"
  for b0 :: board where
  top: "called b0 b0 MIN_NUM MIN_NUM"
| enter: "called b0 b r c \<Longrightarrow> unset_cells b \<noteq> 0 \<Longrightarrow> find_unset b r c = Some (r', c') \<Longrightarrow>
     is_set b r' c' = 0 \<Longrightarrow> looping b0 b r' c' MIN_NUM"
| recurse: "looping b0 b r c prev \<Longrightarrow>
     find_common_free (deref b (row_candidates (cells b r c)))
       (deref b (col_candidates (cells b r c))) (deref b (square_candidates (cells b r c))) prev = val \<Longrightarrow>
     val \<noteq> - 1 \<Longrightarrow> called b0 (set_cell b r c val) r c"
| again: "looping b0 b r c prev \<Longrightarrow>
     find_common_free (deref b (row_candidates (cells b r c)))
       (deref b (col_candidates (cells b r c))) (deref b (square_candidates (cells b r c))) prev = val \<Longrightarrow>
     val \<noteq> - 1 \<Longrightarrow> solve_board n (set_cell b r c val) r c = Some (0, b') \<Longrightarrow>
     looping b0 (unset_cell b' r c val) r c (val + 1)"

text \<open>A completed grid that obeys the rules, and a grid that agrees with the set cells of a
  board.\<close>

type_synonym grid = "int \<Rightarrow> int \<Rightarrow> int"

definition solution :: "grid \<Rightarrow> bool" where
  "solution g =
     ((\<forall>i\<in>nums. \<forall>j\<in>nums. g i j \<in> nums) \<and>
      (\<forall>k\<in>nums.
         distinct (map (\<lambda>j. g k j) [MIN_NUM..MAX_NUM]) \<and>
         distinct (map (\<lambda>i. g i k) [MIN_NUM..MAX_NUM]) \<and>
         distinct (map (\<lambda>(i, j). g i j) (square_cells k))))"

definition extends :: "grid \<Rightarrow> board \<Rightarrow> bool" where
  "extends g b = (\<forall>i\<in>nums. \<forall>j\<in>nums. is_set b i j \<noteq> 0 \<longrightarrow> value' (cells b i j) = g i j)"

text \<open>The grid that the program prints for the empty puzzle, and the boards used as concrete
  inputs below: the empty board with the values \<open>1..9\<close> placed in its first row, and the board
  with which the program ends on the empty puzzle.\<close>

definition first_solution :: grid where
  "first_solution i j =
     [[1, 2, 3, 4, 5, 6, 7, 8, 9],
        [4, 5, 6, 7, 8, 9, 1, 2, 3],
        [7, 8, 9, 1, 2, 3, 4, 5, 6],
        [2, 1, 4, 3, 6, 5, 8, 9, 7],
        [3, 6, 5, 8, 9, 7, 2, 1, 4],
        [8, 9, 7, 2, 1, 4, 3, 6, 5],
        [5, 3, 1, 6, 4, 2, 9, 7, 8],
        [6, 4, 2, 9, 7, 8, 5, 3, 1],
        [9, 7, 8, 5, 3, 1, 6, 4, 2]] ! nat (i - 1) ! nat (j - 1)"

definition first_row_given :: board where
  "first_row_given =
     set_cell (set_cell (set_cell (set_cell (set_cell (set_cell (set_cell (set_cell (set_cell (init_board zero_board) 1 1 1) 1 2 2) 1 3 3) 1 4 4) 1 5 5) 1 6 6) 1 7 7) 1 8 8) 1 9 9"

definition solved_empty :: board where
  "solved_empty = snd (the (solve_board 892 (init_board zero_board) MIN_NUM MIN_NUM))"

section \<open>Candidate search\<close>

declare find_common_free.simps [simp del]

lemma fcf_found:
  "find_common_free r c s i \<noteq> - 1 \<Longrightarrow>
     i \<le> find_common_free r c s i \<and> find_common_free r c s i \<le> MAX_NUM \<and>
     common_free r c s (find_common_free r c s i)"
proof (induction r c s i rule: find_common_free.induct)
  case (1 r c s i)
  show ?case
  proof (cases "i \<le> MAX_NUM")
    case False
    with "1.prems" show ?thesis by (simp add: find_common_free.simps [of r c s i])
  next
    case le: True
    show ?thesis
    proof (cases "common_free r c s i")
      case True
      with le show ?thesis by (simp add: find_common_free.simps [of r c s i])
    next
      case False
      with le have eq: "find_common_free r c s i = find_common_free r c s (i + 1)"
        by (simp add: find_common_free.simps [of r c s i])
      with "1.IH" [OF le False] "1.prems" show ?thesis by auto
    qed
  qed
qed

lemma fcf_skips:
  "i \<le> u \<Longrightarrow> u \<le> MAX_NUM \<Longrightarrow> common_free r c s u \<Longrightarrow>
     i \<le> find_common_free r c s i \<and> find_common_free r c s i \<le> u \<and>
     common_free r c s (find_common_free r c s i)"
proof (induction r c s i rule: find_common_free.induct)
  case (1 r c s i)
  from "1.prems" have le: "i \<le> MAX_NUM" by simp
  show ?case
  proof (cases "common_free r c s i")
    case True
    with le "1.prems" show ?thesis by (simp add: find_common_free.simps [of r c s i])
  next
    case False
    with le have eq: "find_common_free r c s i = find_common_free r c s (i + 1)"
      by (simp add: find_common_free.simps [of r c s i])
    from False "1.prems" have "i \<noteq> u" by auto
    with "1.prems" have "i + 1 \<le> u" by simp
    from "1.IH" [OF le False this "1.prems"(2,3)] eq show ?thesis by auto
  qed
qed

lemma fcf_none:
  "\<forall>u. i \<le> u \<and> u \<le> MAX_NUM \<longrightarrow> \<not> common_free r c s u \<Longrightarrow>
     find_common_free r c s i = - 1"
proof (induction r c s i rule: find_common_free.induct)
  case (1 r c s i)
  show ?case
  proof (cases "i \<le> MAX_NUM")
    case False
    then show ?thesis by (simp add: find_common_free.simps [of r c s i])
  next
    case le: True
    with "1.prems" have nf: "\<not> common_free r c s i" by blast
    from "1.prems" have "\<forall>u. i + 1 \<le> u \<and> u \<le> MAX_NUM \<longrightarrow> \<not> common_free r c s u"
      by auto
    from "1.IH" [OF le nf this] le nf show ?thesis
      by (simp add: find_common_free.simps [of r c s i])
  qed
qed

text \<open>
  Claim C3. For all three arrays and every floor, \<open>find_common_free\<close> returns the smallest
  value between the floor and \<open>MAX_NUM\<close> that is unused in all three arrays, and \<open>-1\<close> when
  there is none; a result other than \<open>-1\<close> is never a value marked in one of the arrays.
\<close>

theorem find_common_free_least:
  "(if \<exists>u. floor \<le> u \<and> u \<le> MAX_NUM \<and> common_free r c s u
    then floor \<le> find_common_free r c s floor \<and> find_common_free r c s floor \<le> MAX_NUM \<and>
         common_free r c s (find_common_free r c s floor) \<and>
         (\<forall>u. floor \<le> u \<and> u < find_common_free r c s floor \<longrightarrow> \<not> common_free r c s u)
    else find_common_free r c s floor = - 1) \<and>
   (find_common_free r c s floor \<noteq> - 1 \<longrightarrow>
      common_free r c s (find_common_free r c s floor))"
proof -
  let ?v = "find_common_free r c s floor"
  have least: "\<not> common_free r c s u"
    if "floor \<le> u" "u < ?v" "\<exists>w. floor \<le> w \<and> w \<le> MAX_NUM \<and> common_free r c s w" for u
  proof
    assume free: "common_free r c s u"
    from that(3) obtain w where w: "floor \<le> w" "w \<le> MAX_NUM" "common_free r c s w" by blast
    from fcf_skips [OF w] have "?v \<le> MAX_NUM" using w(2) by simp
    with that(2) have "u \<le> MAX_NUM" by simp
    from fcf_skips [OF that(1) this free] that(2) show False by simp
  qed
  show ?thesis
  proof (cases "\<exists>u. floor \<le> u \<and> u \<le> MAX_NUM \<and> common_free r c s u")
    case True
    then obtain w where w: "floor \<le> w" "w \<le> MAX_NUM" "common_free r c s w" by blast
    from fcf_skips [OF w] w(2) have "floor \<le> ?v" "?v \<le> MAX_NUM" "common_free r c s ?v"
      by simp_all
    with True least show ?thesis by simp
  next
    case False
    then have "?v = - 1" by (intro fcf_none) blast
    with False show ?thesis by (simp only: if_False) simp
  qed
qed

theorem find_common_free_least_witness:
  "(\<exists>u. 1 \<le> u \<and> u \<le> MAX_NUM \<and>
      common_free ((\<lambda>_. 0)(1 := 1)) ((\<lambda>_. 0)(2 := 1)) ((\<lambda>_. 0)(3 := 1, 5 := 1)) u) \<and>
   find_common_free ((\<lambda>_. 0)(1 := 1)) ((\<lambda>_. 0)(2 := 1)) ((\<lambda>_. 0)(3 := 1, 5 := 1)) 1 = 4"
proof -
  let ?r = "(\<lambda>_. 0)(1 := 1) :: candidates"
  let ?c = "(\<lambda>_. 0)(2 := 1) :: candidates"
  let ?s = "(\<lambda>_. 0)(3 := 1, 5 := 1) :: candidates"
  let ?v = "find_common_free ?r ?c ?s 1"
  have free4: "common_free ?r ?c ?s 4" by (simp add: common_free_def)
  then have ex: "\<exists>u. 1 \<le> u \<and> u \<le> MAX_NUM \<and> common_free ?r ?c ?s u"
    by (intro exI [of _ 4]) (simp add: MAX_NUM_def)
  with find_common_free_least [of 1 ?r ?c ?s]
  have v: "1 \<le> ?v" "common_free ?r ?c ?s ?v"
    and least: "\<forall>u. 1 \<le> u \<and> u < ?v \<longrightarrow> \<not> common_free ?r ?c ?s u"
    by simp_all
  from least free4 have "\<not> (1 \<le> (4::int) \<and> 4 < ?v)" by blast
  then have "?v \<le> 4" by simp
  moreover from v(2) have "?v \<noteq> 1" "?v \<noteq> 2" "?v \<noteq> 3"
    by (auto simp: common_free_def split: if_splits)
  ultimately have "?v = 4" using v(1) by arith
  with ex show ?thesis by simp
qed

section \<open>Arithmetic of positions and basic facts about cells\<close>

lemma nums_iff: "x \<in> nums \<longleftrightarrow> 1 \<le> x \<and> x \<le> 9"
  by (auto simp: nums_def MIN_NUM_def MAX_NUM_def)

lemma nums_numeral [simp]:
  "1 \<in> nums" "2 \<in> nums" "3 \<in> nums" "4 \<in> nums" "5 \<in> nums" "6 \<in> nums" "7 \<in> nums"
  "8 \<in> nums" "9 \<in> nums"
  by (simp_all add: nums_iff)

lemma sdiv3: "0 \<le> x \<Longrightarrow> x sdiv (3::int) = x div 3"
  by (simp add: signed_divide_int_def sgn_if)

lemma smod9: "0 \<le> x \<Longrightarrow> x smod (9::int) = x mod 9"
  by (simp add: signed_modulo_int_def sgn_if)

lemma square_eq: "1 \<le> r \<Longrightarrow> 1 \<le> c \<Longrightarrow> square r c = (r - 1) div 3 * 3 + (c - 1) div 3 + 1"
  by (simp add: square_def SUBDIMENSION_def sdiv3)

lemma div3_bounds: "1 \<le> x \<Longrightarrow> x \<le> 9 \<Longrightarrow> 0 \<le> (x - 1) div 3 \<and> (x - 1) div (3::int) \<le> 2"
  using zdiv_mono1 [of "x - 1" 8 3] by (simp add: pos_imp_zdiv_nonneg_iff)

lemma square_nums: "r \<in> nums \<Longrightarrow> c \<in> nums \<Longrightarrow> square r c \<in> nums"
  using div3_bounds [of r] div3_bounds [of c] by (simp add: square_eq nums_iff)

lemma following_eq: "x \<in> nums \<Longrightarrow> following x = (if x = 9 then 1 else x + 1)"
  by (simp add: following_def MIN_NUM_def TOTAL_NUMS_def smod9 nums_iff)

lemma next_cell_eq:
  "r \<in> nums \<Longrightarrow> c \<in> nums \<Longrightarrow>
     next_cell r c = (if r = 9 \<and> c = 9 then (0, r, c)
                      else if c = 9 then (1, r + 1, 1) else (1, r, c + 1))"
  by (simp add: next_cell_def following_eq Let_def MIN_NUM_def MAX_NUM_def nums_iff)

subsection \<open>Writing through a pointer\<close>

lemma poke_unset_cells [simp]: "unset_cells (poke b p n x) = unset_cells b"
  by (cases p) simp_all

lemma poke_cells [simp]: "cells (poke b p n x) = cells b"
  by (cases p) simp_all

lemma set_cell_cells:
  "cells (set_cell b r c v) =
     (cells b)(r := (cells b r)(c := (cells b r c)\<lparr>has_value := 1, value' := v\<rparr>))"
  by (simp add: set_cell_def use_candidate_def Let_def)

lemma unset_cell_cells:
  "cells (unset_cell b r c v) =
     (cells b)(r := (cells b r)(c := (cells b r c)\<lparr>has_value := 0, value' := 0\<rparr>))"
  by (simp add: unset_cell_def restore_candidate_def Let_def)

lemma set_cell_counter [simp]: "unset_cells (set_cell b r c v) = unset_cells b - 1"
  by (simp add: set_cell_def use_candidate_def Let_def)

lemma unset_cell_counter [simp]: "unset_cells (unset_cell b r c v) = unset_cells b + 1"
  by (simp add: unset_cell_def restore_candidate_def Let_def)

lemma is_set_set_cell [simp]:
  "is_set (set_cell b r c v) i j = (if i = r \<and> j = c then 1 else is_set b i j)"
  by (simp add: is_set_def set_cell_cells)

lemma is_set_unset_cell [simp]:
  "is_set (unset_cell b r c v) i j = (if i = r \<and> j = c then 0 else is_set b i j)"
  by (simp add: is_set_def unset_cell_cells)

lemma value_set_cell [simp]:
  "value' (cells (set_cell b r c v) i j) = (if i = r \<and> j = c then v else value' (cells b i j))"
  by (simp add: set_cell_cells)

lemma value_unset_cell [simp]:
  "value' (cells (unset_cell b r c v) i j) = (if i = r \<and> j = c then 0 else value' (cells b i j))"
  by (simp add: unset_cell_cells)

lemma ptrs_set_cell [simp]:
  "row_candidates (cells (set_cell b r c v) i j) = row_candidates (cells b i j)"
  "col_candidates (cells (set_cell b r c v) i j) = col_candidates (cells b i j)"
  "square_candidates (cells (set_cell b r c v) i j) = square_candidates (cells b i j)"
  by (simp_all add: set_cell_cells)

lemma ptrs_unset_cell [simp]:
  "row_candidates (cells (unset_cell b r c v) i j) = row_candidates (cells b i j)"
  "col_candidates (cells (unset_cell b r c v) i j) = col_candidates (cells b i j)"
  "square_candidates (cells (unset_cell b r c v) i j) = square_candidates (cells b i j)"
  by (simp_all add: unset_cell_cells)

lemma holds_set_cell [simp]:
  "holds (set_cell b r c v) i j u = (if i = r \<and> j = c then u = v else holds b i j u)"
  by (auto simp: holds_def)

lemma holds_unset_cell [simp]:
  "holds (unset_cell b r c v) i j u = (if i = r \<and> j = c then False else holds b i j u)"
  by (simp add: holds_def)

lemma linked_set_cell [simp]: "linked (set_cell b r c v) = linked b"
  by (simp add: linked_def)

lemma linked_unset_cell [simp]: "linked (unset_cell b r c v) = linked b"
  by (simp add: linked_def)

lemma set_cell_explicit:
  "linked b \<Longrightarrow> r \<in> nums \<Longrightarrow> c \<in> nums \<Longrightarrow>
   set_cell b r c v = b\<lparr>unset_cells := unset_cells b - 1,
        cells := (cells b)(r := (cells b r)(c := (cells b r c)\<lparr>has_value := 1, value' := v\<rparr>)),
        rows := (rows b)(r := (rows b r)(v := 1)),
        columns := (columns b)(c := (columns b c)(v := 1)),
        squares := (squares b)(square r c := (squares b (square r c))(v := 1))\<rparr>"
  by (simp add: set_cell_def linked_def use_candidate_def Let_def)

lemma unset_cell_explicit:
  "linked b \<Longrightarrow> r \<in> nums \<Longrightarrow> c \<in> nums \<Longrightarrow>
   unset_cell b r c v = b\<lparr>unset_cells := unset_cells b + 1,
        cells := (cells b)(r := (cells b r)(c := (cells b r c)\<lparr>has_value := 0, value' := 0\<rparr>)),
        rows := (rows b)(r := (rows b r)(v := 0)),
        columns := (columns b)(c := (columns b c)(v := 0)),
        squares := (squares b)(square r c := (squares b (square r c))(v := 0))\<rparr>"
  by (simp add: unset_cell_def linked_def restore_candidate_def Let_def)

lemma arrays_set_cell:
  assumes "linked b" "r \<in> nums" "c \<in> nums"
  shows "rows (set_cell b r c v) i u = (if i = r \<and> u = v then 1 else rows b i u)"
    and "columns (set_cell b r c v) j u = (if j = c \<and> u = v then 1 else columns b j u)"
    and "squares (set_cell b r c v) k u = (if k = square r c \<and> u = v then 1 else squares b k u)"
  by (simp_all add: set_cell_explicit [OF assms])

lemma arrays_unset_cell:
  assumes "linked b" "r \<in> nums" "c \<in> nums"
  shows "rows (unset_cell b r c v) i u = (if i = r \<and> u = v then 0 else rows b i u)"
    and "columns (unset_cell b r c v) j u = (if j = c \<and> u = v then 0 else columns b j u)"
    and "squares (unset_cell b r c v) k u = (if k = square r c \<and> u = v then 0 else squares b k u)"
  by (simp_all add: unset_cell_explicit [OF assms])

lemma can_set_linked:
  "linked b \<Longrightarrow> can_set b r c v =
     (r \<in> nums \<and> c \<in> nums \<and> v \<in> nums \<and> is_set b r c = 0 \<and>
      rows b r v = 0 \<and> columns b c v = 0 \<and> squares b (square r c) v = 0)"
  by (auto simp: can_set_def linked_def common_free_def)

lemma unset_set_cell:
  assumes "linked b" "tidy b" "can_set b r c v"
  shows "unset_cell (set_cell b r c v) r c v = b"
proof -
  from assms have rc: "r \<in> nums" "c \<in> nums" and unset: "has_value (cells b r c) = 0"
    and free: "rows b r v = 0" "columns b c v = 0" "squares b (square r c) v = 0"
    by (simp_all add: can_set_linked is_set_def)
  from assms(2) rc unset have val: "value' (cells b r c) = 0"
    by (auto simp: tidy_def is_set_def)
  have cell: "(cells b r c)\<lparr>has_value := 0, value' := 0\<rparr> = cells b r c"
    using unset val by simp
  have l': "linked (set_cell b r c v)" using assms(1) by simp
  have arr: "(rows b r)(v := 0) = rows b r" "(columns b c)(v := 0) = columns b c"
    "(squares b (square r c))(v := 0) = squares b (square r c)"
    using free by (simp_all add: fun_upd_idem)
  show ?thesis
    unfolding unset_cell_explicit [OF l' rc]
    by (simp add: set_cell_explicit [OF assms(1) rc] cell arr)
qed

section \<open>Counting unset cells; values and clashes\<close>

lemma finite_nums [simp]: "finite nums"
  by (simp add: nums_def)

lemma finite_positions [simp]: "finite positions"
  by (simp add: positions_def)

lemma finite_unset_positions [simp]: "finite (unset_positions b)"
  by (simp add: unset_positions_def)

lemma unset_positions_iff:
  "(r, c) \<in> unset_positions b \<longleftrightarrow> r \<in> nums \<and> c \<in> nums \<and> is_set b r c = 0"
  by (auto simp: unset_positions_def positions_def)

lemma unset_positions_set_cell:
  "unset_positions (set_cell b r c v) = unset_positions b - {(r, c)}"
  by (auto simp: unset_positions_def positions_def)

lemma unset_positions_unset_cell:
  "r \<in> nums \<Longrightarrow> c \<in> nums \<Longrightarrow>
     unset_positions (unset_cell b r c v) = insert (r, c) (unset_positions b)"
  by (auto simp: unset_positions_def positions_def)

lemma card_positions: "card positions = 81"
proof -
  have "nums = {1..9}" by (auto simp: nums_def MIN_NUM_def MAX_NUM_def)
  show ?thesis unfolding positions_def \<open>nums = {1..9}\<close> by simp
qed

lemma card_unset_positions_le: "card (unset_positions b) \<le> 81"
proof -
  have "unset_positions b \<subseteq> positions" by (auto simp: unset_positions_def)
  then have "card (unset_positions b) \<le> card positions" by (intro card_mono) simp_all
  then show ?thesis by (simp add: card_positions)
qed

lemma card_unset_positions_set_cell:
  "r \<in> nums \<Longrightarrow> c \<in> nums \<Longrightarrow> is_set b r c = 0 \<Longrightarrow>
     card (unset_positions (set_cell b r c v)) < card (unset_positions b)"
  unfolding unset_positions_set_cell
  by (intro card_Diff1_less) (simp_all add: unset_positions_iff)

subsection \<open>The invariant\<close>

lemma tidy_set_cell: "tidy b \<Longrightarrow> v \<in> nums \<Longrightarrow> tidy (set_cell b r c v)"
  unfolding tidy_def by (simp (no_asm_simp))

lemma tidy_unset_cell: "tidy b \<Longrightarrow> tidy (unset_cell b r c v)"
  unfolding tidy_def by (simp (no_asm_simp))

lemma no_clash_unset_cell:
  assumes "no_clash b"
  shows "no_clash (unset_cell b r c v)"
  unfolding no_clash_def
proof (intro ballI impI)
  fix i j i' j'
  assume in_nums: "i \<in> nums" "j \<in> nums" "i' \<in> nums" "j' \<in> nums"
    and h: "is_set (unset_cell b r c v) i j \<noteq> 0 \<and> is_set (unset_cell b r c v) i' j' \<noteq> 0 \<and>
      value' (cells (unset_cell b r c v) i j) = value' (cells (unset_cell b r c v) i' j') \<and>
      (i = i' \<or> j = j' \<or> square i j = square i' j')"
  then have "is_set b i j \<noteq> 0 \<and> is_set b i' j' \<noteq> 0 \<and>
      value' (cells b i j) = value' (cells b i' j') \<and>
      (i = i' \<or> j = j' \<or> square i j = square i' j')"
    by (auto split: if_splits)
  with assms in_nums show "i = i' \<and> j = j'" unfolding no_clash_def by blast
qed

lemma no_clash_set_cell:
  assumes ok: "linked b" "board_invariant b" "no_clash b" and can: "can_set b r c v"
  shows "no_clash (set_cell b r c v)"
proof -
  from can ok(1) have rc: "r \<in> nums" "c \<in> nums" "v \<in> nums"
    and free: "rows b r v = 0" "columns b c v = 0" "squares b (square r c) v = 0"
    by (simp_all add: can_set_linked)
  have other: "\<not> (i = r \<or> j = c \<or> square i j = square r c)"
    if "i \<in> nums" "j \<in> nums" "holds b i j v" for i j
  proof
    assume "i = r \<or> j = c \<or> square i j = square r c"
    then consider "i = r" | "j = c" | "square i j = square r c" by blast
    then show False
    proof cases
      case 1
      with that rc have "\<exists>c\<in>nums. holds b r c v" by blast
      with ok(2) rc have "rows b r v \<noteq> 0" unfolding board_invariant_def by blast
      with free show False by simp
    next
      case 2
      with that rc have "\<exists>r\<in>nums. holds b r c v" by blast
      with ok(2) rc have "columns b c v \<noteq> 0" unfolding board_invariant_def by blast
      with free show False by simp
    next
      case 3
      with that have "\<exists>i\<in>nums. \<exists>j\<in>nums. square i j = square r c \<and> holds b i j v" by blast
      with ok(2) rc square_nums [OF rc(1,2)] have "squares b (square r c) v \<noteq> 0"
        unfolding board_invariant_def by blast
      with free show False by simp
    qed
  qed
  show ?thesis
    unfolding no_clash_def
  proof (intro ballI impI)
    fix i j i' j'
    assume in_nums: "i \<in> nums" "j \<in> nums" "i' \<in> nums" "j' \<in> nums"
      and h: "is_set (set_cell b r c v) i j \<noteq> 0 \<and> is_set (set_cell b r c v) i' j' \<noteq> 0 \<and>
        value' (cells (set_cell b r c v) i j) = value' (cells (set_cell b r c v) i' j') \<and>
        (i = i' \<or> j = j' \<or> square i j = square i' j')"
    show "i = i' \<and> j = j'"
    proof (cases "i = r \<and> j = c")
      case new: True
      show ?thesis
      proof (cases "i' = r \<and> j' = c")
        case True
        with new show ?thesis by simp
      next
        case False
        with new h have "holds b i' j' v" by (auto simp: holds_def split: if_splits)
        from other [OF in_nums(3,4) this] new h show ?thesis by auto
      qed
    next
      case old: False
      show ?thesis
      proof (cases "i' = r \<and> j' = c")
        case True
        with old h have "holds b i j v" by (auto simp: holds_def split: if_splits)
        from other [OF in_nums(1,2) this] True h show ?thesis by auto
      next
        case False
        with old h have "is_set b i j \<noteq> 0 \<and> is_set b i' j' \<noteq> 0 \<and>
          value' (cells b i j) = value' (cells b i' j') \<and>
          (i = i' \<or> j = j' \<or> square i j = square i' j')"
          by (auto split: if_splits)
        with ok(3) in_nums show ?thesis unfolding no_clash_def by blast
      qed
    qed
  qed
qed

section \<open>Preservation of the board invariant\<close>

lemma ex_put1:
  "c \<in> A \<Longrightarrow> \<not> P c \<Longrightarrow> (\<exists>j\<in>A. if j = c then Q else P j) = (Q \<or> (\<exists>j\<in>A. P j))"
  by (auto split: if_splits)

lemma ex_put2:
  "r \<in> A \<Longrightarrow> c \<in> B \<Longrightarrow> \<not> P r c \<Longrightarrow>
     (\<exists>i\<in>A. \<exists>j\<in>B. G i j \<and> (if i = r \<and> j = c then Q else P i j)) =
     ((G r c \<and> Q) \<or> (\<exists>i\<in>A. \<exists>j\<in>B. G i j \<and> P i j))"
  by (auto split: if_splits)

lemma ex_drop1:
  "\<not> P c \<Longrightarrow> (\<exists>j\<in>A. if j = c then False else P j) = (\<exists>j\<in>A. P j)"
  by (auto split: if_splits)

lemma ex_drop2:
  "\<not> (G r c \<and> P r c) \<Longrightarrow>
     (\<exists>i\<in>A. \<exists>j\<in>B. G i j \<and> (if i = r \<and> j = c then False else P i j)) =
     (\<exists>i\<in>A. \<exists>j\<in>B. G i j \<and> P i j)"
  by (auto split: if_splits)

lemma board_invariantD:
  assumes "board_invariant b"
  shows "\<And>i u. i \<in> nums \<Longrightarrow> u \<in> nums \<Longrightarrow> (rows b i u \<noteq> 0) = (\<exists>j\<in>nums. holds b i j u)"
    and "\<And>j u. j \<in> nums \<Longrightarrow> u \<in> nums \<Longrightarrow> (columns b j u \<noteq> 0) = (\<exists>i\<in>nums. holds b i j u)"
    and "\<And>k u. k \<in> nums \<Longrightarrow> u \<in> nums \<Longrightarrow>
          (squares b k u \<noteq> 0) = (\<exists>i\<in>nums. \<exists>j\<in>nums. square i j = k \<and> holds b i j u)"
    and "unset_cells b = int (card (unset_positions b))"
  using assms unfolding board_invariant_def by simp_all

lemma board_invariantI:
  assumes "\<And>i u. i \<in> nums \<Longrightarrow> u \<in> nums \<Longrightarrow> (rows b i u \<noteq> 0) = (\<exists>j\<in>nums. holds b i j u)"
    and "\<And>j u. j \<in> nums \<Longrightarrow> u \<in> nums \<Longrightarrow> (columns b j u \<noteq> 0) = (\<exists>i\<in>nums. holds b i j u)"
    and "\<And>k u. k \<in> nums \<Longrightarrow> u \<in> nums \<Longrightarrow>
          (squares b k u \<noteq> 0) = (\<exists>i\<in>nums. \<exists>j\<in>nums. square i j = k \<and> holds b i j u)"
    and "unset_cells b = int (card (unset_positions b))"
  shows "board_invariant b"
  unfolding board_invariant_def using assms by simp

lemma no_clashD:
  assumes "no_clash b" "r \<in> nums" "c \<in> nums" "r' \<in> nums" "c' \<in> nums"
    and "is_set b r c \<noteq> 0" "is_set b r' c' \<noteq> 0"
    and "value' (cells b r c) = value' (cells b r' c')"
    and "r = r' \<or> c = c' \<or> square r c = square r' c'"
  shows "r = r' \<and> c = c'"
  using assms(1) [unfolded no_clash_def, rule_format, of r c r' c'] assms(2-) by simp

lemma board_invariant_set_cell:
  assumes ok: "linked b" "board_invariant b" and can: "can_set b r c v"
  shows "board_invariant (set_cell b r c v)"
proof (rule board_invariantI)
  from can ok(1) have rc: "r \<in> nums" "c \<in> nums" "v \<in> nums" and unset: "is_set b r c = 0"
    by (simp_all add: can_set_linked)
  note arr = arrays_set_cell [OF ok(1) rc(1,2)]
  note inv = board_invariantD [OF ok(2)]
  have nh: "\<not> holds b r c u" for u using unset by (simp add: holds_def)
  show "(rows (set_cell b r c v) i u \<noteq> 0) = (\<exists>j\<in>nums. holds (set_cell b r c v) i j u)"
    if "i \<in> nums" "u \<in> nums" for i u
  proof (cases "i = r")
    case True
    have "(\<exists>j\<in>nums. if j = c then u = v else holds b r j u) = (u = v \<or> (\<exists>j\<in>nums. holds b r j u))"
      by (rule ex_put1 [where P = "\<lambda>j. holds b r j u", OF rc(2) nh])
    then show ?thesis using inv(1) [OF that] True by (simp add: arr)
  next
    case False
    then show ?thesis using inv(1) [OF that] by (simp add: arr)
  qed
  show "(columns (set_cell b r c v) j u \<noteq> 0) = (\<exists>i\<in>nums. holds (set_cell b r c v) i j u)"
    if "j \<in> nums" "u \<in> nums" for j u
  proof (cases "j = c")
    case True
    have "(\<exists>i\<in>nums. if i = r then u = v else holds b i c u) = (u = v \<or> (\<exists>i\<in>nums. holds b i c u))"
      by (rule ex_put1 [where P = "\<lambda>i. holds b i c u", OF rc(1) nh])
    then show ?thesis using inv(2) [OF that] True by (simp add: arr)
  next
    case False
    then show ?thesis using inv(2) [OF that] by (simp add: arr)
  qed
  show "(squares (set_cell b r c v) k u \<noteq> 0) =
      (\<exists>i\<in>nums. \<exists>j\<in>nums. square i j = k \<and> holds (set_cell b r c v) i j u)"
    if "k \<in> nums" "u \<in> nums" for k u
  proof -
    have "(\<exists>i\<in>nums. \<exists>j\<in>nums. square i j = k \<and> (if i = r \<and> j = c then u = v else holds b i j u)) =
        ((square r c = k \<and> u = v) \<or> (\<exists>i\<in>nums. \<exists>j\<in>nums. square i j = k \<and> holds b i j u))"
      by (rule ex_put2 [where P = "\<lambda>i j. holds b i j u", OF rc(1,2) nh])
    then show ?thesis using inv(3) [OF that] by (simp add: arr) blast
  qed
  have "(r, c) \<in> unset_positions b" using rc unset by (simp add: unset_positions_iff)
  moreover from this have "card (unset_positions b) > 0" using card_gt_0_iff by fastforce
  ultimately show "unset_cells (set_cell b r c v) = int (card (unset_positions (set_cell b r c v)))"
    using inv(4) by (simp add: unset_positions_set_cell)
qed

lemma board_invariant_unset_cell:
  assumes ok: "linked b" "board_invariant b" "no_clash b" and can: "can_unset b r c v"
  shows "board_invariant (unset_cell b r c v)"
proof (rule board_invariantI)
  from can have rc: "r \<in> nums" "c \<in> nums" "v \<in> nums" and h: "holds b r c v"
    by (simp_all add: can_unset_def)
  note arr = arrays_unset_cell [OF ok(1) rc(1,2)]
  note inv = board_invariantD [OF ok(2)]
  have only: "i = r \<and> j = c"
    if "i \<in> nums" "j \<in> nums" "holds b i j v" "i = r \<or> j = c \<or> square i j = square r c" for i j
    using no_clashD [OF ok(3) that(1,2) rc(1,2)] that(3,4) h unfolding holds_def by simp
  have hu: "u = v" if "holds b r c u" for u using h that by (simp add: holds_def)
  show "(rows (unset_cell b r c v) i u \<noteq> 0) = (\<exists>j\<in>nums. holds (unset_cell b r c v) i j u)"
    if "i \<in> nums" "u \<in> nums" for i u
  proof (cases "i = r")
    case False
    then show ?thesis using inv(1) [OF that] by (simp add: arr)
  next
    case r: True
    show ?thesis
    proof (cases "u = v")
      case True
      have "\<not> (\<exists>j\<in>nums. if j = c then False else holds b r j v)"
        using only [OF rc(1)] by (auto split: if_splits)
      with r True show ?thesis by (simp add: arr)
    next
      case False
      have "(\<exists>j\<in>nums. if j = c then False else holds b r j u) = (\<exists>j\<in>nums. holds b r j u)"
        by (rule ex_drop1 [where P = "\<lambda>j. holds b r j u"]) (use hu False in auto)
      with r False show ?thesis using inv(1) [OF that] by (simp add: arr)
    qed
  qed
  show "(columns (unset_cell b r c v) j u \<noteq> 0) = (\<exists>i\<in>nums. holds (unset_cell b r c v) i j u)"
    if "j \<in> nums" "u \<in> nums" for j u
  proof (cases "j = c")
    case False
    then show ?thesis using inv(2) [OF that] by (simp add: arr)
  next
    case c: True
    show ?thesis
    proof (cases "u = v")
      case True
      have "\<not> (\<exists>i\<in>nums. if i = r then False else holds b i c v)"
        using only [OF _ rc(2)] by (auto split: if_splits)
      with c True show ?thesis by (simp add: arr)
    next
      case False
      have "(\<exists>i\<in>nums. if i = r then False else holds b i c u) = (\<exists>i\<in>nums. holds b i c u)"
        by (rule ex_drop1 [where P = "\<lambda>i. holds b i c u"]) (use hu False in auto)
      with c False show ?thesis using inv(2) [OF that] by (simp add: arr)
    qed
  qed
  show "(squares (unset_cell b r c v) k u \<noteq> 0) =
      (\<exists>i\<in>nums. \<exists>j\<in>nums. square i j = k \<and> holds (unset_cell b r c v) i j u)"
    if "k \<in> nums" "u \<in> nums" for k u
  proof (cases "k = square r c \<and> u = v")
    case True
    have "\<not> (\<exists>i\<in>nums. \<exists>j\<in>nums. square i j = square r c \<and>
        (if i = r \<and> j = c then False else holds b i j v))"
      using only by (auto split: if_splits)
    with True show ?thesis by (simp add: arr)
  next
    case False
    have "(\<exists>i\<in>nums. \<exists>j\<in>nums. square i j = k \<and> (if i = r \<and> j = c then False else holds b i j u)) =
        (\<exists>i\<in>nums. \<exists>j\<in>nums. square i j = k \<and> holds b i j u)"
      by (rule ex_drop2 [where P = "\<lambda>i j. holds b i j u"]) (use hu False in auto)
    moreover have "squares (unset_cell b r c v) k u = squares b k u"
      using False by (auto simp: arr)
    ultimately show ?thesis using inv(3) [OF that] by simp
  qed
  have "(r, c) \<notin> unset_positions b" using h by (simp add: unset_positions_iff holds_def)
  then show "unset_cells (unset_cell b r c v) = int (card (unset_positions (unset_cell b r c v)))"
    using inv(4) rc by (simp add: unset_positions_unset_cell)
qed

lemma board_ok_set_cell: "board_ok b \<Longrightarrow> can_set b r c v \<Longrightarrow> board_ok (set_cell b r c v)"
  unfolding board_ok_def
  by (simp add: tidy_set_cell no_clash_set_cell board_invariant_set_cell can_set_def)

lemma board_ok_unset_cell: "board_ok b \<Longrightarrow> can_unset b r c v \<Longrightarrow> board_ok (unset_cell b r c v)"
  unfolding board_ok_def
  by (simp add: tidy_unset_cell no_clash_unset_cell board_invariant_unset_cell)

section \<open>Initialisation\<close>

lemma set_upto_nums: "set [MIN_NUM..MAX_NUM] = nums"
  by (simp add: nums_def)

lemma fold_poke_frame [simp]:
  "unset_cells (fold (\<lambda>i b'. poke b' cp i x) xs b) = unset_cells b"
  "cells (fold (\<lambda>i b'. poke b' cp i x) xs b) = cells b"
  by (induction xs arbitrary: b) simp_all

lemma fold_poke_Rows:
  "rows (fold (\<lambda>i b'. poke b' (Rows k) i x) xs b) i v =
     (if i = k \<and> v \<in> set xs then x else rows b i v)"
  "columns (fold (\<lambda>i b'. poke b' (Rows k) i x) xs b) = columns b"
  "squares (fold (\<lambda>i b'. poke b' (Rows k) i x) xs b) = squares b"
  by (induction xs arbitrary: b) auto

lemma fold_poke_Columns:
  "columns (fold (\<lambda>i b'. poke b' (Columns k) i x) xs b) i v =
     (if i = k \<and> v \<in> set xs then x else columns b i v)"
  "rows (fold (\<lambda>i b'. poke b' (Columns k) i x) xs b) = rows b"
  "squares (fold (\<lambda>i b'. poke b' (Columns k) i x) xs b) = squares b"
  by (induction xs arbitrary: b) auto

lemma fold_poke_Squares:
  "squares (fold (\<lambda>i b'. poke b' (Squares k) i x) xs b) i v =
     (if i = k \<and> v \<in> set xs then x else squares b i v)"
  "rows (fold (\<lambda>i b'. poke b' (Squares k) i x) xs b) = rows b"
  "columns (fold (\<lambda>i b'. poke b' (Squares k) i x) xs b) = columns b"
  by (induction xs arbitrary: b) auto

lemma init_cell_frame [simp]:
  "unset_cells (init_cell i j b) = unset_cells b"
  "rows (init_cell i j b) = rows b"
  "columns (init_cell i j b) = columns b"
  "squares (init_cell i j b) = squares b"
  by (simp_all add: init_cell_def)

lemma init_cell_cells:
  "cells (init_cell i j b) i' j' =
     (if i' = i \<and> j' = j
      then \<lparr>has_value = 0, value' = 0, row_candidates = Rows i, col_candidates = Columns j,
            square_candidates = Squares (square i j)\<rparr>
      else cells b i' j')"
  by (cases "cells b i j") (simp add: init_cell_def)

lemma fold_init_cell_frame [simp]:
  "unset_cells (fold (init_cell i) xs b) = unset_cells b"
  "rows (fold (init_cell i) xs b) = rows b"
  "columns (fold (init_cell i) xs b) = columns b"
  "squares (fold (init_cell i) xs b) = squares b"
  by (induction xs arbitrary: b) simp_all

lemma fold_init_cell_cells:
  "cells (fold (init_cell i) xs b) i' j' =
     (if i' = i \<and> j' \<in> set xs
      then \<lparr>has_value = 0, value' = 0, row_candidates = Rows i, col_candidates = Columns j',
            square_candidates = Squares (square i j')\<rparr>
      else cells b i' j')"
  by (induction xs arbitrary: b) (auto simp: init_cell_cells)

lemma init_row_fields:
  "unset_cells (init_row i b) = unset_cells b"
  "cells (init_row i b) i' j' =
     (if i' = i \<and> j' \<in> nums
      then \<lparr>has_value = 0, value' = 0, row_candidates = Rows i, col_candidates = Columns j',
            square_candidates = Squares (square i j')\<rparr>
      else cells b i' j')"
  "rows (init_row i b) k v = (if k = i \<and> v \<in> nums then 0 else rows b k v)"
  "columns (init_row i b) k v = (if k = i \<and> v \<in> nums then 0 else columns b k v)"
  "squares (init_row i b) k v = (if k = i \<and> v \<in> nums then 0 else squares b k v)"
  by (simp_all add: init_row_def init_candidates_def fold_init_cell_cells
      fold_poke_Rows fold_poke_Columns fold_poke_Squares set_upto_nums
      del: poke.simps set_upto)

lemma fold_init_row_fields:
  "unset_cells (fold init_row xs b) = unset_cells b"
  "cells (fold init_row xs b) i' j' =
     (if i' \<in> set xs \<and> j' \<in> nums
      then \<lparr>has_value = 0, value' = 0, row_candidates = Rows i', col_candidates = Columns j',
            square_candidates = Squares (square i' j')\<rparr>
      else cells b i' j')"
  "rows (fold init_row xs b) k v = (if k \<in> set xs \<and> v \<in> nums then 0 else rows b k v)"
  "columns (fold init_row xs b) k v = (if k \<in> set xs \<and> v \<in> nums then 0 else columns b k v)"
  "squares (fold init_row xs b) k v = (if k \<in> set xs \<and> v \<in> nums then 0 else squares b k v)"
  by (induction xs arbitrary: b) (auto simp: init_row_fields)

lemma init_board_fields:
  "unset_cells (init_board b) = 81"
  "cells (init_board b) i j =
     (if i \<in> nums \<and> j \<in> nums
      then \<lparr>has_value = 0, value' = 0, row_candidates = Rows i, col_candidates = Columns j,
            square_candidates = Squares (square i j)\<rparr>
      else cells b i j)"
  "rows (init_board b) k v = (if k \<in> nums \<and> v \<in> nums then 0 else rows b k v)"
  "columns (init_board b) k v = (if k \<in> nums \<and> v \<in> nums then 0 else columns b k v)"
  "squares (init_board b) k v = (if k \<in> nums \<and> v \<in> nums then 0 else squares b k v)"
  by (simp_all add: init_board_def fold_init_row_fields TOTAL_NUMS_def set_upto_nums
      del: set_upto)

lemma is_set_init_board: "i \<in> nums \<Longrightarrow> j \<in> nums \<Longrightarrow> is_set (init_board b) i j = 0"
  by (simp add: is_set_def init_board_fields)

lemma unset_positions_init_board: "unset_positions (init_board b) = positions"
  by (auto simp: unset_positions_def positions_def is_set_init_board)

lemma board_ok_init_board: "board_ok (init_board b)"
proof -
  have "linked (init_board b)" by (simp add: linked_def init_board_fields)
  moreover have "tidy (init_board b)" by (simp add: tidy_def is_set_init_board init_board_fields)
  moreover have "no_clash (init_board b)" by (simp add: no_clash_def is_set_init_board)
  moreover have "board_invariant (init_board b)"
    by (rule board_invariantI)
       (simp_all add: init_board_fields holds_def is_set_init_board unset_positions_init_board
          card_positions)
  ultimately show ?thesis by (simp add: board_ok_def)
qed

lemma reachable_board_ok: "reachable b \<Longrightarrow> board_ok b"
  by (induction rule: reachable.induct)
     (simp_all add: board_ok_init_board board_ok_set_cell board_ok_unset_cell)

section \<open>The scan, failure and termination of the search\<close>

subsection \<open>The scan for the next unset cell\<close>

lemma find_unset_unset: "is_set b r c = 0 \<Longrightarrow> find_unset b r c = Some (r, c)"
  by (subst find_unset.simps) simp

lemma find_unset_last: "is_set b 9 9 \<noteq> 0 \<Longrightarrow> find_unset b 9 9 = Some (9, 9)"
  by (subst find_unset.simps) (simp add: next_cell_def MAX_NUM_def)

lemma find_unset_step_col:
  "is_set b r c \<noteq> 0 \<Longrightarrow> r \<in> nums \<Longrightarrow> c \<in> nums \<Longrightarrow> c \<noteq> 9 \<Longrightarrow>
     find_unset b r c = find_unset b r (c + 1)"
  by (subst find_unset.simps) (simp add: next_cell_eq)

lemma find_unset_step_row:
  "is_set b r 9 \<noteq> 0 \<Longrightarrow> r \<in> nums \<Longrightarrow> r \<noteq> 9 \<Longrightarrow>
     find_unset b r 9 = find_unset b (r + 1) 1"
  by (subst find_unset.simps) (simp add: next_cell_eq)

lemma scanned_refl: "r \<in> nums \<Longrightarrow> c \<in> nums \<Longrightarrow> is_set b r c = 0 \<or> (r = 9 \<and> c = 9) \<Longrightarrow> scanned b r c r c"
  by (auto simp: scanned_def before_def)

lemma before_succ_col: "\<not> before p (r, c) \<Longrightarrow> p \<noteq> (r, c) \<Longrightarrow> \<not> before p (r, c + 1)"
  by (cases p) (auto simp: before_def)

lemma before_succ_row:
  "\<not> before p (r, 9) \<Longrightarrow> p \<noteq> (r, 9) \<Longrightarrow> p \<in> positions \<Longrightarrow> \<not> before p (r + 1, 1)"
  by (cases p) (auto simp: before_def positions_def nums_iff)

lemma before_pred_col: "\<not> before q (r, c + 1) \<Longrightarrow> \<not> before q (r, c)"
  by (cases q) (auto simp: before_def)

lemma before_pred_row: "\<not> before q (r + 1, 1) \<Longrightarrow> \<not> before q (r, 9)"
  by (cases q) (auto simp: before_def)

lemma scannedI:
  assumes "r' \<in> nums" "c' \<in> nums" "\<not> before (r', c') (r, c)"
    and "\<And>p. p \<in> positions \<Longrightarrow> \<not> before p (r, c) \<Longrightarrow> before p (r', c') \<Longrightarrow>
           is_set b (fst p) (snd p) \<noteq> 0"
    and "is_set b r' c' \<noteq> 0 \<Longrightarrow> r' = 9 \<and> c' = 9"
  shows "scanned b r c r' c'"
  unfolding scanned_def
proof (intro conjI ballI impI)
  fix p assume "p \<in> positions" "\<not> before p (r, c) \<and> before p (r', c')"
  then show "is_set b (fst p) (snd p) \<noteq> 0" using assms(4) [of p] by simp
qed (use assms in simp_all)

lemma scannedD:
  assumes "scanned b r c r' c'"
  shows "r' \<in> nums" "c' \<in> nums" "\<not> before (r', c') (r, c)"
    and "\<And>p. p \<in> positions \<Longrightarrow> \<not> before p (r, c) \<Longrightarrow> before p (r', c') \<Longrightarrow>
           is_set b (fst p) (snd p) \<noteq> 0"
    and "is_set b r' c' \<noteq> 0 \<Longrightarrow> r' = 9 \<and> c' = 9"
  using assms unfolding scanned_def by simp_all

lemma scanned_col:
  assumes set: "is_set b r c \<noteq> 0" and s: "scanned b r (c + 1) r' c'"
  shows "scanned b r c r' c'"
proof (rule scannedI)
  note d = scannedD [OF s]
  show "r' \<in> nums" "c' \<in> nums" by (rule d)+
  show "\<not> before (r', c') (r, c)" using d(3) by (rule before_pred_col)
  show "is_set b r' c' \<noteq> 0 \<Longrightarrow> r' = 9 \<and> c' = 9" by (rule d(5))
  show "is_set b (fst p) (snd p) \<noteq> 0"
    if "p \<in> positions" "\<not> before p (r, c)" "before p (r', c')" for p
  proof (cases "p = (r, c)")
    case True
    with set show ?thesis by simp
  next
    case False
    from before_succ_col [OF that(2) False] that show ?thesis by (intro d(4))
  qed
qed

lemma scanned_row:
  assumes set: "is_set b r 9 \<noteq> 0" and s: "scanned b (r + 1) 1 r' c'"
  shows "scanned b r 9 r' c'"
proof (rule scannedI)
  note d = scannedD [OF s]
  show "r' \<in> nums" "c' \<in> nums" by (rule d)+
  show "\<not> before (r', c') (r, 9)" using d(3) by (rule before_pred_row)
  show "is_set b r' c' \<noteq> 0 \<Longrightarrow> r' = 9 \<and> c' = 9" by (rule d(5))
  show "is_set b (fst p) (snd p) \<noteq> 0"
    if "p \<in> positions" "\<not> before p (r, 9)" "before p (r', c')" for p
  proof (cases "p = (r, 9)")
    case True
    with set show ?thesis by simp
  next
    case False
    from before_succ_row [OF that(2) False that(1)] that show ?thesis by (intro d(4))
  qed
qed

lemma find_unset_scanned:
  "r \<in> nums \<Longrightarrow> c \<in> nums \<Longrightarrow> \<exists>r' c'. find_unset b r c = Some (r', c') \<and> scanned b r c r' c'"
proof (induction "nat (9 * (9 - r) + (9 - c))" arbitrary: r c rule: less_induct)
  case less
  note rc = less.prems
  show ?case
  proof (cases "is_set b r c = 0")
    case True
    then have "find_unset b r c = Some (r, c)" "scanned b r c r c"
      using rc by (simp_all add: find_unset_unset scanned_refl)
    then show ?thesis by blast
  next
    case set: False
    show ?thesis
    proof (cases "c = 9")
      case False
      from rc False have c1: "c + 1 \<in> nums" by (simp add: nums_iff)
      from rc False have "nat (9 * (9 - r) + (9 - (c + 1))) < nat (9 * (9 - r) + (9 - c))"
        by (simp add: nums_iff)
      from less.hyps [OF this rc(1) c1] obtain r' c'
        where *: "find_unset b r (c + 1) = Some (r', c')" "scanned b r (c + 1) r' c'" by blast
      from *(1) have "find_unset b r c = Some (r', c')"
        by (simp add: find_unset_step_col [OF set rc False])
      moreover from *(2) have "scanned b r c r' c'" by (rule scanned_col [OF set])
      ultimately show ?thesis by blast
    next
      case c9: True
      show ?thesis
      proof (cases "r = 9")
        case True
        with c9 set rc have "find_unset b r c = Some (r, c)" "scanned b r c r c"
          by (simp_all add: find_unset_last scanned_refl)
        then show ?thesis by blast
      next
        case False
        from rc False have r1: "r + 1 \<in> nums" "1 \<in> nums" by (simp_all add: nums_iff)
        from rc False c9 have "nat (9 * (9 - (r + 1)) + (9 - 1)) < nat (9 * (9 - r) + (9 - c))"
          by (simp add: nums_iff)
        from less.hyps [OF this r1] obtain r' c'
          where *: "find_unset b (r + 1) 1 = Some (r', c')" "scanned b (r + 1) 1 r' c'" by blast
        from set c9 have set9: "is_set b r 9 \<noteq> 0" by simp
        from *(1) have "find_unset b r c = Some (r', c')"
          unfolding c9 by (simp add: find_unset_step_row [OF set9 rc(1) False])
        moreover from *(2) have "scanned b r c r' c'"
          unfolding c9 by (rule scanned_row [OF set9])
        ultimately show ?thesis by blast
      qed
    qed
  qed
qed

subsection \<open>A failed search undoes its assignments\<close>

lemma restored_refl: "restored b b"
  by (simp add: restored_def)

lemma restored_trans: "restored a b \<Longrightarrow> restored b c \<Longrightarrow> restored a c"
  by (simp add: restored_def)

lemma poke_arrays:
  "rows (poke b p n x) = (case p of Rows i \<Rightarrow> (rows b)(i := (rows b i)(n := x)) | _ \<Rightarrow> rows b)"
  "columns (poke b p n x) = (case p of Columns i \<Rightarrow> (columns b)(i := (columns b i)(n := x)) | _ \<Rightarrow> columns b)"
  "squares (poke b p n x) = (case p of Squares i \<Rightarrow> (squares b)(i := (squares b i)(n := x)) | _ \<Rightarrow> squares b)"
  by (cases p; simp)+

lemma poke_update:
  "poke (b\<lparr>unset_cells := u\<rparr>) p n x = (poke b p n x)\<lparr>unset_cells := u\<rparr>"
  "poke (b\<lparr>cells := cs\<rparr>) p n x = (poke b p n x)\<lparr>cells := cs\<rparr>"
  by (cases p; simp)+

lemma set_cell_arrays:
  "rows (set_cell b r c v) =
     rows (poke (poke (poke b (row_candidates (cells b r c)) v 1)
       (col_candidates (cells b r c)) v 1) (square_candidates (cells b r c)) v 1)"
  "columns (set_cell b r c v) =
     columns (poke (poke (poke b (row_candidates (cells b r c)) v 1)
       (col_candidates (cells b r c)) v 1) (square_candidates (cells b r c)) v 1)"
  "squares (set_cell b r c v) =
     squares (poke (poke (poke b (row_candidates (cells b r c)) v 1)
       (col_candidates (cells b r c)) v 1) (square_candidates (cells b r c)) v 1)"
  by (simp_all add: set_cell_def use_candidate_def Let_def poke_update del: poke.simps)

lemma unset_cell_arrays:
  "rows (unset_cell b r c v) =
     rows (poke (poke (poke b (row_candidates (cells b r c)) v 0)
       (col_candidates (cells b r c)) v 0) (square_candidates (cells b r c)) v 0)"
  "columns (unset_cell b r c v) =
     columns (poke (poke (poke b (row_candidates (cells b r c)) v 0)
       (col_candidates (cells b r c)) v 0) (square_candidates (cells b r c)) v 0)"
  "squares (unset_cell b r c v) =
     squares (poke (poke (poke b (row_candidates (cells b r c)) v 0)
       (col_candidates (cells b r c)) v 0) (square_candidates (cells b r c)) v 0)"
  by (simp_all add: unset_cell_def restore_candidate_def Let_def poke_update del: poke.simps)

lemma undo_arrays:
  assumes free: "common_free (deref b p1) (deref b p2) (deref b p3) v"
    and b1: "rows b1 = rows (poke (poke (poke b p1 v 1) p2 v 1) p3 v 1)"
      "columns b1 = columns (poke (poke (poke b p1 v 1) p2 v 1) p3 v 1)"
      "squares b1 = squares (poke (poke (poke b p1 v 1) p2 v 1) p3 v 1)"
  shows "rows (poke (poke (poke b1 p1 v 0) p2 v 0) p3 v 0) = rows b"
    and "columns (poke (poke (poke b1 p1 v 0) p2 v 0) p3 v 0) = columns b"
    and "squares (poke (poke (poke b1 p1 v 0) p2 v 0) p3 v 0) = squares b"
  using free
  by (cases p1; cases p2; cases p3; simp add: poke_arrays b1 common_free_def fun_eq_iff)+

lemma restored_undo:
  assumes free: "common_free (deref b (row_candidates (cells b r c)))
      (deref b (col_candidates (cells b r c))) (deref b (square_candidates (cells b r c))) v"
    and unset: "is_set b r c = 0"
    and rec: "restored (set_cell b r c v) b'"
  shows "restored b (unset_cell b' r c v)"
proof -
  let ?p1 = "row_candidates (cells b r c)"
  let ?p2 = "col_candidates (cells b r c)"
  let ?p3 = "square_candidates (cells b r c)"
  from rec have p: "row_candidates (cells b' r c) = ?p1" "col_candidates (cells b' r c) = ?p2"
    "square_candidates (cells b' r c) = ?p3"
    by (simp_all add: restored_def)
  note set = set_cell_arrays [of b r c v]
  have un: "rows (unset_cell b' r c v) = rows (poke (poke (poke b' ?p1 v 0) ?p2 v 0) ?p3 v 0)"
    "columns (unset_cell b' r c v) = columns (poke (poke (poke b' ?p1 v 0) ?p2 v 0) ?p3 v 0)"
    "squares (unset_cell b' r c v) = squares (poke (poke (poke b' ?p1 v 0) ?p2 v 0) ?p3 v 0)"
    by (simp_all only: unset_cell_arrays p)
  from rec have b': "rows b' = rows (poke (poke (poke b ?p1 v 1) ?p2 v 1) ?p3 v 1)"
    "columns b' = columns (poke (poke (poke b ?p1 v 1) ?p2 v 1) ?p3 v 1)"
    "squares b' = squares (poke (poke (poke b ?p1 v 1) ?p2 v 1) ?p3 v 1)"
    by (simp_all add: restored_def set)
  note arr = undo_arrays [OF free b']
  from rec have flags: "is_set b' i j = (if i = r \<and> j = c then 1 else is_set b i j)" for i j
    by (simp add: restored_def)
  from rec have ptrs: "row_candidates (cells b' i j) = row_candidates (cells b i j)"
    "col_candidates (cells b' i j) = col_candidates (cells b i j)"
    "square_candidates (cells b' i j) = square_candidates (cells b i j)" for i j
    by (simp_all add: restored_def)
  from rec have cnt: "unset_cells b' = unset_cells b - 1" by (simp add: restored_def)
  show ?thesis
    unfolding restored_def by (simp add: un arr flags ptrs cnt unset)
qed

lemma fcf_free:
  "find_common_free r c s prev = v \<Longrightarrow> v \<noteq> - 1 \<Longrightarrow> common_free r c s v \<and> prev \<le> v \<and> v \<le> 9"
  using fcf_found [of r c s prev] by (auto simp: MAX_NUM_def)

lemma failure_restores:
  "(\<forall>b r c b'. solve_board n b r c = Some (0, b') \<longrightarrow> restored b b') \<and>
   (\<forall>b r c prev b'. is_set b r c = 0 \<longrightarrow> try_values n b r c prev = Some (0, b') \<longrightarrow> restored b b')"
proof (induction n)
  case 0
  show ?case by simp
next
  case (Suc n)
  then have IHs: "\<And>b r c b'. solve_board n b r c = Some (0, b') \<Longrightarrow> restored b b'"
    and IHt: "\<And>b r c prev b'. is_set b r c = 0 \<Longrightarrow> try_values n b r c prev = Some (0, b') \<Longrightarrow>
      restored b b'"
    by blast+
  have solve: "restored b b'" if "solve_board (Suc n) b r c = Some (0, b')" for b r c b'
  proof -
    from that obtain r' c' where "is_set b r' c' = 0" "try_values n b r' c' MIN_NUM = Some (0, b')"
      by (auto split: if_splits option.splits)
    then show ?thesis by (rule IHt)
  qed
  have loop: "restored b b'"
    if unset: "is_set b r c = 0" and res: "try_values (Suc n) b r c prev = Some (0, b')"
    for b r c prev b'
  proof -
    define v where "v = find_common_free (deref b (row_candidates (cells b r c)))
      (deref b (col_candidates (cells b r c))) (deref b (square_candidates (cells b r c))) prev"
    show ?thesis
    proof (cases "v = - 1")
      case True
      with res show ?thesis by (simp add: v_def restored_refl)
    next
      case False
      with res obtain b2 where rec: "solve_board n (set_cell b r c v) r c = Some (0, b2)"
        and rest: "try_values n (unset_cell b2 r c v) r c (v + 1) = Some (0, b')"
        by (auto simp: v_def [symmetric] Let_def split: option.splits if_splits)
      from fcf_free [OF v_def [symmetric] False]
      have free: "common_free (deref b (row_candidates (cells b r c)))
        (deref b (col_candidates (cells b r c))) (deref b (square_candidates (cells b r c))) v"
        by simp
      from restored_undo [OF free unset IHs [OF rec]]
      have undone: "restored b (unset_cell b2 r c v)" .
      have "is_set (unset_cell b2 r c v) r c = 0" by simp
      from undone IHt [OF this rest] show ?thesis by (rule restored_trans)
    qed
  qed
  from solve loop show ?case by blast
qed

subsection \<open>Fuel\<close>

lemma restored_unset_positions: "restored b b' \<Longrightarrow> unset_positions b' = unset_positions b"
  by (simp add: restored_def unset_positions_def)

lemma solve_returns_aux:
  "\<forall>b r c n. card (unset_positions b) \<le> k \<longrightarrow> r \<in> nums \<longrightarrow> c \<in> nums \<longrightarrow> 11 * k + 1 \<le> n \<longrightarrow>
     (\<exists>res. solve_board n b r c = Some res)"
proof (induction k)
  case 0
  show ?case
  proof (intro allI impI)
    fix b r c and n :: nat
    assume k: "card (unset_positions b) \<le> 0" and rc: "r \<in> nums" "c \<in> nums" and n: "11 * 0 + 1 \<le> n"
    from n obtain m where m: "n = Suc m" by (cases n) auto
    from find_unset_scanned [OF rc] obtain r' c'
      where f: "find_unset b r c = Some (r', c')" and s: "scanned b r c r' c'" by blast
    from k have "(r', c') \<notin> unset_positions b" by simp
    with scannedD(1,2) [OF s] have "is_set b r' c' \<noteq> 0" by (simp add: unset_positions_iff)
    with f show "\<exists>res. solve_board n b r c = Some res" by (simp add: m)
  qed
next
  case (Suc k)
  then have IH: "\<And>b r c n. card (unset_positions b) \<le> k \<Longrightarrow> r \<in> nums \<Longrightarrow> c \<in> nums \<Longrightarrow>
      11 * k + 1 \<le> n \<Longrightarrow> \<exists>res. solve_board n b r c = Some res"
    by blast
  have loop: "\<exists>res. try_values n b r c prev = Some res"
    if "card (unset_positions b) \<le> Suc k" "r \<in> nums" "c \<in> nums" "is_set b r c = 0"
      "11 * k + 2 + nat (10 - prev) \<le> n"
    for b r c prev n
    using that
  proof (induction "nat (10 - prev)" arbitrary: b prev n rule: less_induct)
    case less
    from less.prems(5) obtain m where m: "n = Suc m" by (cases n) auto
    define v where "v = find_common_free (deref b (row_candidates (cells b r c)))
      (deref b (col_candidates (cells b r c))) (deref b (square_candidates (cells b r c))) prev"
    show ?case
    proof (cases "v = - 1")
      case True
      then show ?thesis by (simp add: m v_def [symmetric])
    next
      case False
      from fcf_free [OF v_def [symmetric] False] have v: "prev \<le> v" "v \<le> 9" by simp_all
      have "card (unset_positions (set_cell b r c v)) < card (unset_positions b)"
        using less.prems(2-4) by (rule card_unset_positions_set_cell)
      with less.prems(1) have "card (unset_positions (set_cell b r c v)) \<le> k" by simp
      moreover from less.prems(5) m have "11 * k + 1 \<le> m" by simp
      ultimately obtain ret b2 where rec: "solve_board m (set_cell b r c v) r c = Some (ret, b2)"
        using IH [OF _ less.prems(2,3), of "set_cell b r c v" m] by auto
      show ?thesis
      proof (cases "ret = 0")
        case False
        with rec \<open>v \<noteq> - 1\<close> show ?thesis by (simp add: m v_def [symmetric])
      next
        case True
        from fcf_free [OF v_def [symmetric] \<open>v \<noteq> - 1\<close>]
        have free: "common_free (deref b (row_candidates (cells b r c)))
          (deref b (col_candidates (cells b r c))) (deref b (square_candidates (cells b r c))) v"
          by simp
        from rec True have "restored (set_cell b r c v) b2"
          using failure_restores [of m] by blast
        from restored_undo [OF free less.prems(4) this]
        have "unset_positions (unset_cell b2 r c v) = unset_positions b"
          by (rule restored_unset_positions)
        with less.prems(1) have 1: "card (unset_positions (unset_cell b2 r c v)) \<le> Suc k" by simp
        have 2: "is_set (unset_cell b2 r c v) r c = 0" by simp
        from v have 3: "nat (10 - (v + 1)) < nat (10 - prev)" by simp
        from v less.prems(5) m have 4: "11 * k + 2 + nat (10 - (v + 1)) \<le> m" by simp
        from less.hyps [OF 3 1 less.prems(2,3) 2 4]
        obtain res where "try_values m (unset_cell b2 r c v) r c (v + 1) = Some res" by blast
        with rec True \<open>v \<noteq> - 1\<close> show ?thesis by (simp add: m v_def [symmetric])
      qed
    qed
  qed
  show ?case
  proof (intro allI impI)
    fix b r c and n :: nat
    assume k: "card (unset_positions b) \<le> Suc k" and rc: "r \<in> nums" "c \<in> nums"
      and n: "11 * Suc k + 1 \<le> n"
    from n obtain m where m: "n = Suc m" by (cases n) auto
    from find_unset_scanned [OF rc] obtain r' c'
      where f: "find_unset b r c = Some (r', c')" and s: "scanned b r c r' c'" by blast
    show "\<exists>res. solve_board n b r c = Some res"
    proof (cases "unset_cells b = 0 \<or> is_set b r' c' \<noteq> 0")
      case True
      with f show ?thesis by (auto simp: m)
    next
      case False
      from n m have "11 * k + 2 + nat (10 - MIN_NUM) \<le> m" by (simp add: MIN_NUM_def)
      from loop [OF k scannedD(1,2) [OF s] _ this] False
      obtain res where "try_values m b r' c' MIN_NUM = Some res" by auto
      with f False show ?thesis by (simp add: m)
    qed
  qed
qed

lemma solve_board_returns:
  assumes "r \<in> nums" "c \<in> nums" "892 \<le> n"
  shows "\<exists>ret b'. solve_board n b r c = Some (ret, b')"
proof -
  have "11 * 81 + 1 \<le> n" using assms(3) by simp
  with solve_returns_aux [of 81] card_unset_positions_le [of b] assms(1,2)
  have "\<exists>res. solve_board n b r c = Some res" by blast
  then show ?thesis by auto
qed

lemma fuel_mono_aux:
  "(\<forall>b r c res m. solve_board n b r c = Some res \<longrightarrow> n \<le> m \<longrightarrow> solve_board m b r c = Some res) \<and>
   (\<forall>b r c prev res m. try_values n b r c prev = Some res \<longrightarrow> n \<le> m \<longrightarrow>
      try_values m b r c prev = Some res)"
proof (induction n)
  case 0
  show ?case by simp
next
  case (Suc n)
  then have IHs: "\<And>b r c res m. solve_board n b r c = Some res \<Longrightarrow> n \<le> m \<Longrightarrow>
      solve_board m b r c = Some res"
    and IHt: "\<And>b r c prev res m. try_values n b r c prev = Some res \<Longrightarrow> n \<le> m \<Longrightarrow>
      try_values m b r c prev = Some res"
    by blast+
  have solve: "solve_board m b r c = Some res"
    if "solve_board (Suc n) b r c = Some res" "Suc n \<le> m" for b r c res m
  proof -
    from that(2) obtain m' where m: "m = Suc m'" "n \<le> m'" by (cases m) auto
    from that(1) show ?thesis
      by (auto simp: m split: if_splits option.splits intro: IHt [OF _ m(2)])
  qed
  have loop: "try_values m b r c prev = Some res"
    if "try_values (Suc n) b r c prev = Some res" "Suc n \<le> m" for b r c prev res m
  proof -
    from that(2) obtain m' where m: "m = Suc m'" "n \<le> m'" by (cases m) auto
    from that(1) show ?thesis
      by (auto simp: m Let_def IHs [OF _ m(2)] split: if_splits option.splits
          intro: IHt [OF _ m(2)])
  qed
  from solve loop show ?case by blast
qed

lemma fuel_mono: "solve_board n b r c = Some res \<Longrightarrow> n \<le> m \<Longrightarrow> solve_board m b r c = Some res"
  using fuel_mono_aux [of n] by blast

lemma fuel_mono_try:
  "try_values n b r c prev = Some res \<Longrightarrow> n \<le> m \<Longrightarrow> try_values m b r c prev = Some res"
  using fuel_mono_aux [of n] by blast

section \<open>The board invariant\<close>




section \<open>Failure and termination of the search\<close>

subsection \<open>A run that fails after two trial assignments\<close>

lemma linked_init_board [simp]: "linked (init_board b)"
  using board_ok_init_board [of b] by (simp add: board_ok_def)

lemma square_numerals [simp]:
  "square 1 1 = 1" "square 1 2 = 1" "square 1 3 = 1" "square 1 4 = 2" "square 1 5 = 2" "square 1 6 = 2"
  "square 1 7 = 3" "square 1 8 = 3" "square 1 9 = 3" "square 4 2 = 4" "square 5 2 = 4"
  by (simp_all add: square_eq)

lemmas board_eval = arrays_set_cell arrays_unset_cell init_board_fields is_set_init_board

lemma stuck_linked: "linked stuck_board"
  by (simp add: stuck_board_def)

lemma stuck_ptrs:
  "row_candidates (cells stuck_board 1 1) = Rows 1"
  "col_candidates (cells stuck_board 1 1) = Columns 1"
  "square_candidates (cells stuck_board 1 1) = Squares 1"
  "row_candidates (cells stuck_board 1 2) = Rows 1"
  "col_candidates (cells stuck_board 1 2) = Columns 2"
  "square_candidates (cells stuck_board 1 2) = Squares 1"
  using stuck_linked by (simp_all add: linked_def)

lemma stuck_rows1: "rows stuck_board 1 = (\<lambda>v. if 1 \<le> v \<and> v \<le> 7 then 1 else 0)"
  by (rule ext) (simp add: stuck_board_def board_eval nums_iff zero_board_def)

lemma stuck_col1: "columns stuck_board 1 = (\<lambda>v. 0)"
  by (rule ext) (simp add: stuck_board_def board_eval nums_iff zero_board_def)

lemma stuck_col2: "columns stuck_board 2 = (\<lambda>v. if v = 8 \<or> v = 9 then 1 else 0)"
  by (rule ext) (simp add: stuck_board_def board_eval nums_iff zero_board_def)

lemma stuck_sq1: "squares stuck_board 1 = (\<lambda>v. if v = 1 then 1 else 0)"
  by (rule ext) (simp add: stuck_board_def board_eval nums_iff zero_board_def)

lemma stuck_flags: "is_set stuck_board 1 1 = 0" "is_set stuck_board 1 2 = 0" "unset_cells stuck_board = 72"
  by (simp_all add: stuck_board_def board_eval)

lemma stuck_inner8:
  "solve_board (Suc (Suc n)) (set_cell stuck_board 1 1 8) 1 1 = Some (0, set_cell stuck_board 1 1 8)"
  by (simp add: stuck_flags find_unset.simps [of _ 1 1] find_unset.simps [of _ 1 2] next_cell_eq
      stuck_ptrs arrays_set_cell [OF stuck_linked] stuck_rows1 stuck_col2 stuck_sq1
      find_common_free.simps common_free_def MIN_NUM_def MAX_NUM_def)

lemma stuck_reachable: "reachable stuck_board"
  unfolding stuck_board_def
  by (intro reachable.set reachable.init)
     (simp_all add: can_set_linked board_eval zero_board_def)

lemma stuck_inner9:
  "solve_board (Suc (Suc n)) (set_cell stuck_board 1 1 9) 1 1 = Some (0, set_cell stuck_board 1 1 9)"
  by (simp add: stuck_flags find_unset.simps [of _ 1 1] find_unset.simps [of _ 1 2] next_cell_eq
      stuck_ptrs arrays_set_cell [OF stuck_linked] stuck_rows1 stuck_col2 stuck_sq1
      find_common_free.simps common_free_def MIN_NUM_def MAX_NUM_def)

lemma stuck_undo8: "unset_cell (set_cell stuck_board 1 1 8) 1 1 8 = stuck_board"
proof -
  have "board_ok stuck_board" using stuck_reachable by (rule reachable_board_ok)
  moreover have "can_set stuck_board 1 1 8"
    by (simp add: can_set_linked [OF stuck_linked] stuck_flags stuck_rows1 stuck_col1 stuck_sq1)
  ultimately show ?thesis by (simp add: board_ok_def unset_set_cell)
qed

lemma stuck_fails:
  "solve_board 5 stuck_board 1 1 = Some (0, unset_cell (set_cell stuck_board 1 1 9) 1 1 9)"
proof -
  let ?u = "unset_cell (set_cell stuck_board 1 1 9) 1 1 9"
  note fields = stuck_flags stuck_ptrs stuck_rows1 stuck_col1 stuck_sq1
    find_common_free.simps common_free_def MIN_NUM_def MAX_NUM_def
  have l: "linked (set_cell stuck_board 1 1 9)" using stuck_linked by simp
  have t3: "try_values (Suc n) ?u 1 1 10 = Some (0, ?u)" for n
    by (simp add: find_common_free.simps MAX_NUM_def)
  have t2: "try_values (Suc (Suc (Suc 0))) stuck_board 1 1 9 = Some (0, ?u)"
    by (subst try_values.simps)
       (simp add: fields stuck_inner9 t3 del: solve_board.simps try_values.simps)
  have t1: "try_values (Suc (Suc (Suc (Suc 0)))) stuck_board 1 1 1 = Some (0, ?u)"
    by (subst try_values.simps)
       (simp add: fields stuck_inner8 stuck_undo8 t2 del: solve_board.simps try_values.simps)
  have 5: "(5::nat) = Suc (Suc (Suc (Suc (Suc 0))))" by simp
  show ?thesis
    unfolding 5
    by (subst solve_board.simps)
       (simp add: stuck_flags find_unset.simps [of _ 1 1] t1 MIN_NUM_def
          del: solve_board.simps try_values.simps)
qed

section \<open>Soundness of the search\<close>

lemma sweptD: "swept b r c \<Longrightarrow> p \<in> positions \<Longrightarrow> before p (r, c) \<Longrightarrow> is_set b (fst p) (snd p) \<noteq> 0"
  unfolding swept_def by simp

lemma sweptI:
  "(\<And>p. p \<in> positions \<Longrightarrow> before p (r, c) \<Longrightarrow> is_set b (fst p) (snd p) \<noteq> 0) \<Longrightarrow> swept b r c"
  unfolding swept_def by simp

lemma swept_scanned:
  assumes "swept b r c" "scanned b r c r' c'"
  shows "swept b r' c'"
proof (rule sweptI)
  fix p assume p: "p \<in> positions" "before p (r', c')"
  show "is_set b (fst p) (snd p) \<noteq> 0"
  proof (cases "before p (r, c)")
    case True
    with assms(1) p(1) show ?thesis by (rule sweptD)
  next
    case False
    with p show ?thesis by (intro scannedD(4) [OF assms(2)])
  qed
qed

lemma swept_set_cell: "swept b r c \<Longrightarrow> swept (set_cell b i j v) r c"
  unfolding swept_def by simp

lemma before_last: "p \<in> positions \<Longrightarrow> p \<noteq> (9, 9) \<Longrightarrow> before p (9, 9)"
  by (cases p) (auto simp: before_def positions_def nums_iff)

lemma all_set_counter:
  assumes ok: "board_ok b" and sw: "swept b r c" and sc: "scanned b r c r' c'"
    and set: "is_set b r' c' \<noteq> 0"
  shows "unset_cells b = 0"
proof -
  from scannedD(5) [OF sc set] have last: "r' = 9" "c' = 9" by simp_all
  from swept_scanned [OF sw sc] have sw9: "swept b 9 9" by (simp add: last)
  have "is_set b (fst p) (snd p) \<noteq> 0" if "p \<in> positions" for p
  proof (cases "p = (9, 9)")
    case True
    with set last show ?thesis by simp
  next
    case False
    from sw9 that before_last [OF that False] show ?thesis by (rule sweptD)
  qed
  then have "unset_positions b = {}"
    by (auto simp: unset_positions_def)
  moreover from ok have "unset_cells b = int (card (unset_positions b))"
    by (simp add: board_ok_def board_invariantD(4))
  ultimately show ?thesis by simp
qed

lemma kept_refl: "kept b b"
  by (simp add: kept_def)

lemma kept_set_cell:
  assumes "is_set b r c = 0" "kept (set_cell b r c v) b'"
  shows "kept b b'"
  unfolding kept_def
proof (intro ballI impI)
  fix i j assume ij: "i \<in> nums" "j \<in> nums" "is_set b i j \<noteq> 0"
  with assms(1) have ne: "\<not> (i = r \<and> j = c)" by auto
  with ij have "is_set (set_cell b r c v) i j \<noteq> 0" by simp
  with assms(2) ij have "cells b' i j = cells (set_cell b r c v) i j" by (simp add: kept_def)
  with ne show "cells b' i j = cells b i j" by (auto simp: set_cell_cells)
qed

lemma can_set_candidate:
  assumes "board_ok b" "r \<in> nums" "c \<in> nums" "is_set b r c = 0" "1 \<le> prev"
    and "find_common_free (deref b (row_candidates (cells b r c)))
      (deref b (col_candidates (cells b r c))) (deref b (square_candidates (cells b r c))) prev = v"
    and "v \<noteq> - 1"
  shows "can_set b r c v"
  using fcf_free [OF assms(6,7)] assms(1-5) by (simp add: can_set_def nums_iff)

lemma sound_aux:
  "(\<forall>b r c ret b'. board_ok b \<longrightarrow> r \<in> nums \<longrightarrow> c \<in> nums \<longrightarrow>
      solve_board n b r c = Some (ret, b') \<longrightarrow> outcome b r c ret b') \<and>
   (\<forall>b r c prev ret b'. board_ok b \<longrightarrow> r \<in> nums \<longrightarrow> c \<in> nums \<longrightarrow> is_set b r c = 0 \<longrightarrow>
      1 \<le> prev \<longrightarrow> try_values n b r c prev = Some (ret, b') \<longrightarrow> outcome b r c ret b')"
proof (induction n)
  case 0
  show ?case by simp
next
  case (Suc n)
  then have IHs: "\<And>b r c ret b'. board_ok b \<Longrightarrow> r \<in> nums \<Longrightarrow> c \<in> nums \<Longrightarrow>
      solve_board n b r c = Some (ret, b') \<Longrightarrow> outcome b r c ret b'"
    and IHt: "\<And>b r c prev ret b'. board_ok b \<Longrightarrow> r \<in> nums \<Longrightarrow> c \<in> nums \<Longrightarrow>
      is_set b r c = 0 \<Longrightarrow> 1 \<le> prev \<Longrightarrow> try_values n b r c prev = Some (ret, b') \<Longrightarrow>
      outcome b r c ret b'"
    by blast+
  have solve: "outcome b r c ret b'"
    if ok: "board_ok b" and rc: "r \<in> nums" "c \<in> nums"
      and res: "solve_board (Suc n) b r c = Some (ret, b')" for b r c ret b'
  proof (cases "unset_cells b = 0")
    case True
    with res ok show ?thesis by (auto simp: outcome_def kept_refl)
  next
    case False
    from find_unset_scanned [OF rc] obtain r' c'
      where f: "find_unset b r c = Some (r', c')" and sc: "scanned b r c r' c'" by blast
    show ?thesis
    proof (cases "is_set b r' c' = 0")
      case set: False
      with res f False have "ret = 1" "b' = b" by simp_all
      moreover have "unset_cells b = 0" if "swept b r c"
        using ok that sc set by (rule all_set_counter)
      ultimately show ?thesis using ok by (simp add: outcome_def kept_refl)
    next
      case True
      with res f False have "try_values n b r' c' MIN_NUM = Some (ret, b')" by simp
      from IHt [OF ok scannedD(1,2) [OF sc] True _ this]
      have "outcome b r' c' ret b'" by (simp add: MIN_NUM_def)
      then show ?thesis
        unfolding outcome_def using swept_scanned [OF _ sc] by blast
    qed
  qed
  have loop: "outcome b r c ret b'"
    if ok: "board_ok b" and rc: "r \<in> nums" "c \<in> nums" and unset: "is_set b r c = 0"
      and prev: "1 \<le> prev" and res: "try_values (Suc n) b r c prev = Some (ret, b')"
    for b r c prev ret b'
  proof -
    define v where "v = find_common_free (deref b (row_candidates (cells b r c)))
      (deref b (col_candidates (cells b r c))) (deref b (square_candidates (cells b r c))) prev"
    show ?thesis
    proof (cases "v = - 1")
      case True
      with res show ?thesis by (simp add: v_def [symmetric] outcome_def)
    next
      case False
      from can_set_candidate [OF ok rc unset prev v_def [symmetric] False]
      have can: "can_set b r c v" .
      from board_ok_set_cell [OF ok can] have ok1: "board_ok (set_cell b r c v)" .
      from res False obtain ret1 b2
        where rec: "solve_board n (set_cell b r c v) r c = Some (ret1, b2)"
        by (auto simp: v_def [symmetric] Let_def split: option.splits)
      from IHs [OF ok1 rc rec] have out1: "outcome (set_cell b r c v) r c ret1 b2" .
      show ?thesis
      proof (cases "ret1 = 0")
        case False
        with out1 have *: "ret1 = 1" "board_ok b2" "kept (set_cell b r c v) b2"
          "swept (set_cell b r c v) r c \<longrightarrow> unset_cells b2 = 0"
          "reachable (set_cell b r c v) \<longrightarrow> reachable b2"
          by (simp_all add: outcome_def)
        from res rec \<open>v \<noteq> - 1\<close> False have "ret = 1" "b' = b2"
          by (simp_all add: v_def [symmetric])
        with * kept_set_cell [OF unset *(3)] swept_set_cell [of b r c r c v]
          reachable.set [OF _ can]
        show ?thesis by (simp add: outcome_def)
      next
        case True
        with out1 have "b2 = set_cell b r c v" by (simp add: outcome_def)
        moreover from ok can have "unset_cell (set_cell b r c v) r c v = b"
          by (simp add: board_ok_def unset_set_cell)
        ultimately have rest: "try_values n b r c (v + 1) = Some (ret, b')"
          using res rec \<open>v \<noteq> - 1\<close> True by (simp add: v_def [symmetric])
        from can have "1 \<le> v + 1" by (simp add: can_set_def nums_iff)
        from IHt [OF ok rc unset this rest] show ?thesis .
      qed
    qed
  qed
  from solve loop show ?case by blast
qed

lemma solve_board_outcome:
  "board_ok b \<Longrightarrow> r \<in> nums \<Longrightarrow> c \<in> nums \<Longrightarrow> solve_board n b r c = Some (ret, b') \<Longrightarrow>
     outcome b r c ret b'"
  using sound_aux [of n] by blast

lemma try_values_outcome:
  "board_ok b \<Longrightarrow> r \<in> nums \<Longrightarrow> c \<in> nums \<Longrightarrow> is_set b r c = 0 \<Longrightarrow> 1 \<le> prev \<Longrightarrow>
     try_values n b r c prev = Some (ret, b') \<Longrightarrow> outcome b r c ret b'"
  using sound_aux [of n] by blast

subsection \<open>Solved grids\<close>





lemma square_cells_set: "set (square_cells k) = {(i, j). i \<in> nums \<and> j \<in> nums \<and> square i j = k}"
  by (auto simp: square_cells_def set_upto_nums simp del: set_upto)


lemma upto_1_9: "[1..9] = [1, 2, 3, 4, 5, 6, 7, 8, 9 :: int]"
  by (simp add: upto_rec1)



lemma all_set_if_counter_0:
  assumes "board_ok b" "unset_cells b = 0" "i \<in> nums" "j \<in> nums"
  shows "is_set b i j \<noteq> 0"
proof -
  from assms(1) have "unset_cells b = int (card (unset_positions b))"
    by (simp add: board_ok_def board_invariantD(4))
  with assms(2) have "unset_positions b = {}" by simp
  with assms(3,4) show ?thesis using unset_positions_iff [of i j b] by simp
qed



lemma swept_first: "swept b MIN_NUM MIN_NUM"
  unfolding swept_def by (auto simp: before_def positions_def nums_iff MIN_NUM_def)

lemma MIN_NUM_nums [simp]: "MIN_NUM \<in> nums"
  by (simp add: MIN_NUM_def)

lemma success_facts:
  assumes "reachable b" "r \<in> nums" "c \<in> nums" "solve_board n b r c = Some (ret, b')" "ret \<noteq> 0"
  shows "ret = 1" "board_ok b'" "kept b b'" "swept b r c \<Longrightarrow> unset_cells b' = 0" "reachable b'"
  using solve_board_outcome [OF reachable_board_ok [OF assms(1)] assms(2-4)] assms(1,5)
  by (simp_all add: outcome_def)

section \<open>Completeness of the search\<close>

lemma solutionD:
  assumes "solution g"
  shows "\<And>i j. i \<in> nums \<Longrightarrow> j \<in> nums \<Longrightarrow> g i j \<in> nums"
    and "\<And>k j j'. k \<in> nums \<Longrightarrow> j \<in> nums \<Longrightarrow> j' \<in> nums \<Longrightarrow> g k j = g k j' \<Longrightarrow> j = j'"
    and "\<And>k i i'. k \<in> nums \<Longrightarrow> i \<in> nums \<Longrightarrow> i' \<in> nums \<Longrightarrow> g i k = g i' k \<Longrightarrow> i = i'"
    and "\<And>i j i' j'. i \<in> nums \<Longrightarrow> j \<in> nums \<Longrightarrow> i' \<in> nums \<Longrightarrow> j' \<in> nums \<Longrightarrow>
          square i j = square i' j' \<Longrightarrow> g i j = g i' j' \<Longrightarrow> i = i' \<and> j = j'"
proof -
  from assms have rng: "\<forall>i\<in>nums. \<forall>j\<in>nums. g i j \<in> nums"
    and d: "\<And>k. k \<in> nums \<Longrightarrow> distinct (map (\<lambda>j. g k j) [MIN_NUM..MAX_NUM])"
      "\<And>k. k \<in> nums \<Longrightarrow> distinct (map (\<lambda>i. g i k) [MIN_NUM..MAX_NUM])"
      "\<And>k. k \<in> nums \<Longrightarrow> distinct (map (\<lambda>(i, j). g i j) (square_cells k))"
    unfolding solution_def by simp_all
  show "g i j \<in> nums" if "i \<in> nums" "j \<in> nums" for i j using rng that by simp
  show "j = j'" if "k \<in> nums" "j \<in> nums" "j' \<in> nums" "g k j = g k j'" for k j j'
  proof -
    from d(1) [OF that(1)] have "inj_on (\<lambda>j. g k j) nums"
      by (simp add: distinct_map set_upto_nums del: set_upto)
    with that show ?thesis by (simp add: inj_on_def)
  qed
  show "i = i'" if "k \<in> nums" "i \<in> nums" "i' \<in> nums" "g i k = g i' k" for k i i'
  proof -
    from d(2) [OF that(1)] have "inj_on (\<lambda>i. g i k) nums"
      by (simp add: distinct_map set_upto_nums del: set_upto)
    with that show ?thesis by (simp add: inj_on_def)
  qed
  show "i = i' \<and> j = j'"
    if "i \<in> nums" "j \<in> nums" "i' \<in> nums" "j' \<in> nums" "square i j = square i' j'"
      "g i j = g i' j'" for i j i' j'
  proof -
    let ?k = "square i j"
    have k: "?k \<in> nums" using that(1,2) by (rule square_nums)
    from d(3) [OF k] have inj: "inj_on (\<lambda>(i, j). g i j) (set (square_cells ?k))"
      by (simp add: distinct_map)
    have "(i, j) \<in> set (square_cells ?k)" "(i', j') \<in> set (square_cells ?k)"
      using that by (simp_all add: square_cells_set)
    from inj_onD [OF inj _ this] that(6) show ?thesis by simp
  qed
qed

lemma extendsD:
  "extends g b \<Longrightarrow> i \<in> nums \<Longrightarrow> j \<in> nums \<Longrightarrow> is_set b i j \<noteq> 0 \<Longrightarrow> value' (cells b i j) = g i j"
  unfolding extends_def by simp

lemma extends_set_cell:
  "extends g b \<Longrightarrow> g r c = v \<Longrightarrow> extends g (set_cell b r c v)"
  unfolding extends_def by simp

lemma solution_value_free:
  assumes ok: "board_ok b" and sol: "solution g" and ext: "extends g b"
    and rc: "r \<in> nums" "c \<in> nums" and unset: "is_set b r c = 0"
  shows "common_free (rows b r) (columns b c) (squares b (square r c)) (g r c)"
proof -
  from ok have inv: "board_invariant b" by (simp add: board_ok_def)
  note s = solutionD [OF sol]
  have v: "g r c \<in> nums" using rc by (rule s(1))
  have k: "square r c \<in> nums" using rc by (rule square_nums)
  have h: "g i j = g r c \<and> \<not> (i = r \<and> j = c)" if "i \<in> nums" "j \<in> nums" "holds b i j (g r c)" for i j
    using extendsD [OF ext that(1,2)] that(3) unset by (auto simp: holds_def)
  have "rows b r (g r c) = 0"
  proof (rule ccontr)
    assume "rows b r (g r c) \<noteq> 0"
    with board_invariantD(1) [OF inv rc(1) v] obtain j where j: "j \<in> nums" "holds b r j (g r c)"
      by blast
    from h [OF rc(1) j] s(2) [OF rc(1) j(1) rc(2)] show False by simp
  qed
  moreover have "columns b c (g r c) = 0"
  proof (rule ccontr)
    assume "columns b c (g r c) \<noteq> 0"
    with board_invariantD(2) [OF inv rc(2) v] obtain i where i: "i \<in> nums" "holds b i c (g r c)"
      by blast
    from h [OF i(1) rc(2) i(2)] s(3) [OF rc(2) i(1) rc(1)] show False by simp
  qed
  moreover have "squares b (square r c) (g r c) = 0"
  proof (rule ccontr)
    assume "squares b (square r c) (g r c) \<noteq> 0"
    with board_invariantD(3) [OF inv k v] obtain i j
      where ij: "i \<in> nums" "j \<in> nums" "square i j = square r c" "holds b i j (g r c)"
      by blast
    from h [OF ij(1,2,4)] s(4) [OF ij(1,2) rc ij(3)] show False by simp
  qed
  ultimately show ?thesis by (simp add: common_free_def)
qed

lemma linked_deref:
  assumes "linked b" "r \<in> nums" "c \<in> nums"
  shows "deref b (row_candidates (cells b r c)) = rows b r"
    and "deref b (col_candidates (cells b r c)) = columns b c"
    and "deref b (square_candidates (cells b r c)) = squares b (square r c)"
  using assms by (simp_all add: linked_def)

lemma complete_aux:
  "(\<forall>b r c b'. board_ok b \<longrightarrow> r \<in> nums \<longrightarrow> c \<in> nums \<longrightarrow> solve_board n b r c = Some (0, b') \<longrightarrow>
      \<not> (\<exists>g. solution g \<and> extends g b)) \<and>
   (\<forall>b r c prev b'. board_ok b \<longrightarrow> r \<in> nums \<longrightarrow> c \<in> nums \<longrightarrow> is_set b r c = 0 \<longrightarrow> 1 \<le> prev \<longrightarrow>
      try_values n b r c prev = Some (0, b') \<longrightarrow>
      \<not> (\<exists>g. solution g \<and> extends g b \<and> prev \<le> g r c))"
proof (induction n)
  case 0
  show ?case by simp
next
  case (Suc n)
  then have IHs: "\<And>b r c b' g. board_ok b \<Longrightarrow> r \<in> nums \<Longrightarrow> c \<in> nums \<Longrightarrow>
      solve_board n b r c = Some (0, b') \<Longrightarrow> solution g \<Longrightarrow> extends g b \<Longrightarrow> False"
    and IHt: "\<And>b r c prev b' g. board_ok b \<Longrightarrow> r \<in> nums \<Longrightarrow> c \<in> nums \<Longrightarrow> is_set b r c = 0 \<Longrightarrow>
      1 \<le> prev \<Longrightarrow> try_values n b r c prev = Some (0, b') \<Longrightarrow> solution g \<Longrightarrow> extends g b \<Longrightarrow>
      prev \<le> g r c \<Longrightarrow> False"
    by blast+
  have solve: False
    if ok: "board_ok b" and rc: "r \<in> nums" "c \<in> nums"
      and res: "solve_board (Suc n) b r c = Some (0, b')" and g: "solution g" "extends g b"
    for b r c b' g
  proof -
    from find_unset_scanned [OF rc] obtain r' c'
      where f: "find_unset b r c = Some (r', c')" and sc: "scanned b r c r' c'" by blast
    from res f have unset: "is_set b r' c' = 0" and t: "try_values n b r' c' MIN_NUM = Some (0, b')"
      by (auto split: if_splits)
    note rc' = scannedD(1,2) [OF sc]
    from solutionD(1) [OF g(1) rc'] have "1 \<le> g r' c'" by (simp add: nums_iff)
    from IHt [OF ok rc' unset _ t [unfolded MIN_NUM_def] g this] show False by simp
  qed
  have loop: False
    if ok: "board_ok b" and rc: "r \<in> nums" "c \<in> nums" and unset: "is_set b r c = 0"
      and prev: "1 \<le> prev" and res: "try_values (Suc n) b r c prev = Some (0, b')"
      and g: "solution g" "extends g b" and ge: "prev \<le> g r c"
    for b r c prev b' g
  proof -
    from ok have l: "linked b" by (simp add: board_ok_def)
    note dr = linked_deref [OF l rc]
    define v where "v = find_common_free (rows b r) (columns b c) (squares b (square r c)) prev"
    from solution_value_free [OF ok g rc unset]
    have free: "common_free (rows b r) (columns b c) (squares b (square r c)) (g r c)" .
    from solutionD(1) [OF g(1) rc] have le9: "g r c \<le> MAX_NUM" by (simp add: nums_iff MAX_NUM_def)
    from fcf_skips [OF ge le9 free] have v: "prev \<le> v" "v \<le> g r c" by (simp_all add: v_def)
    with prev have ne: "v \<noteq> - 1" by simp
    have can: "can_set b r c v"
      by (rule can_set_candidate [OF ok rc unset prev _ ne]) (simp add: dr v_def)
    from board_ok_set_cell [OF ok can] have ok1: "board_ok (set_cell b r c v)" .
    from res ne obtain ret1 b2
      where rec: "solve_board n (set_cell b r c v) r c = Some (ret1, b2)"
      by (auto simp: dr v_def [symmetric] Let_def split: option.splits)
    from res rec ne have ret1: "ret1 = 0"
      by (auto simp: dr v_def [symmetric] Let_def split: if_splits)
    from solve_board_outcome [OF ok1 rc rec] ret1 have "b2 = set_cell b r c v"
      by (simp add: outcome_def)
    moreover from ok can have "unset_cell (set_cell b r c v) r c v = b"
      by (simp add: board_ok_def unset_set_cell)
    ultimately have rest: "try_values n b r c (v + 1) = Some (0, b')"
      using res rec ne ret1 by (simp add: dr v_def [symmetric])
    show False
    proof (cases "g r c = v")
      case True
      from extends_set_cell [OF g(2) True] have "extends g (set_cell b r c v)" .
      from IHs [OF ok1 rc rec [unfolded ret1] g(1) this] show False .
    next
      case False
      with v have "v + 1 \<le> g r c" by simp
      moreover from v prev have "1 \<le> v + 1" by simp
      ultimately show False using IHt [OF ok rc unset _ rest g] by simp
    qed
  qed
  from solve loop show ?case by blast
qed

lemma solvable_succeeds:
  assumes "reachable b" "r \<in> nums" "c \<in> nums" "solution g" "extends g b"
  shows "\<exists>b'. solve_board 892 b r c = Some (1, b')"
proof -
  from solve_board_returns [OF assms(2,3) order_refl] obtain ret b'
    where res: "solve_board 892 b r c = Some (ret, b')" by blast
  note ok = reachable_board_ok [OF assms(1)]
  have "ret \<noteq> 0" using complete_aux [of 892] ok assms(2-) res by blast
  with solve_board_outcome [OF ok assms(2,3) res] have "ret = 1" by (simp add: outcome_def)
  with res show ?thesis by simp
qed

subsection \<open>The empty puzzle\<close>

lemma first_solution_row1:
  "first_solution 1 1 = 1" "first_solution 1 2 = 2" "first_solution 1 3 = 3"
  "first_solution 1 4 = 4" "first_solution 1 5 = 5" "first_solution 1 6 = 6"
  "first_solution 1 7 = 7" "first_solution 1 8 = 8" "first_solution 1 9 = 9"
  by (simp_all add: first_solution_def)

lemma solution_first_solution: "solution first_solution"
  by code_simp

lemma peel:
  assumes r: "reachable b" and rc: "r \<in> nums" "c \<in> nums" and cnt: "unset_cells b \<noteq> 0"
    and f: "find_unset b r c = Some (r', c')" and unset: "is_set b r' c' = 0"
    and v: "find_common_free (rows b r') (columns b c') (squares b (square r' c')) 1 = v" "v \<noteq> - 1"
    and sol: "solution g" "extends g (set_cell b r' c' v)"
  shows "solve_board 892 b r c = solve_board 892 (set_cell b r' c' v) r' c'"
proof -
  from find_unset_scanned [OF rc, of b] f have sc: "scanned b r c r' c'" by auto
  note rc' = scannedD(1,2) [OF sc]
  note ok = reachable_board_ok [OF r]
  from ok have l: "linked b" by (simp add: board_ok_def)
  note dr = linked_deref [OF l rc']
  have can: "can_set b r' c' v"
    by (rule can_set_candidate [OF ok rc' unset, of 1, OF _ _ v(2)]) (simp_all add: dr v(1))
  from solvable_succeeds [OF reachable.set [OF r can] rc' sol] obtain b2
    where inner: "solve_board 892 (set_cell b r' c' v) r' c' = Some (1, b2)" by blast
  have step: "solve_board (Suc (Suc n)) b r c = Some (1, b2)"
    if "solve_board n (set_cell b r' c' v) r' c' = Some (1, b2)" for n
    using cnt f unset v that by (simp add: dr MIN_NUM_def)
  from solve_board_returns [OF rc order_refl] obtain res
    where res: "solve_board 892 b r c = Some res" by fastforce
  have "solve_board (Suc (Suc 892)) b r c = Some res"
    by (rule fuel_mono [OF res]) simp
  with step [OF inner] res inner show ?thesis by (simp del: solve_board.simps)
qed

lemmas row1_eval = arrays_set_cell init_board_fields is_set_init_board can_set_linked

lemma square_row1 [simp]:
  "square 1 1 = 1" "square 1 2 = 1" "square 1 3 = 1" "square 1 4 = 2" "square 1 5 = 2"
  "square 1 6 = 2" "square 1 7 = 3" "square 1 8 = 3" "square 1 9 = 3"
  by (simp_all add: square_eq)

lemma reach_0: "reachable (init_board b0)"
  by (rule reachable.init)

lemma reach_1: "reachable (set_cell (init_board b0) 1 1 1)"
  by (rule reachable.set [OF reach_0]) (simp add: row1_eval)

lemma reach_2: "reachable (set_cell (set_cell (init_board b0) 1 1 1) 1 2 2)"
  by (rule reachable.set [OF reach_1]) (simp add: row1_eval)

lemma reach_3: "reachable (set_cell (set_cell (set_cell (init_board b0) 1 1 1) 1 2 2) 1 3 3)"
  by (rule reachable.set [OF reach_2]) (simp add: row1_eval)

lemma reach_4: "reachable (set_cell (set_cell (set_cell (set_cell (init_board b0) 1 1 1) 1 2 2) 1 3 3) 1 4 4)"
  by (rule reachable.set [OF reach_3]) (simp add: row1_eval)

lemma reach_5: "reachable (set_cell (set_cell (set_cell (set_cell (set_cell (init_board b0) 1 1 1) 1 2 2) 1 3 3) 1 4 4) 1 5 5)"
  by (rule reachable.set [OF reach_4]) (simp add: row1_eval)

lemma reach_6: "reachable (set_cell (set_cell (set_cell (set_cell (set_cell (set_cell (init_board b0) 1 1 1) 1 2 2) 1 3 3) 1 4 4) 1 5 5) 1 6 6)"
  by (rule reachable.set [OF reach_5]) (simp add: row1_eval)

lemma reach_7: "reachable (set_cell (set_cell (set_cell (set_cell (set_cell (set_cell (set_cell (init_board b0) 1 1 1) 1 2 2) 1 3 3) 1 4 4) 1 5 5) 1 6 6) 1 7 7)"
  by (rule reachable.set [OF reach_6]) (simp add: row1_eval)

lemma reach_8: "reachable (set_cell (set_cell (set_cell (set_cell (set_cell (set_cell (set_cell (set_cell (init_board b0) 1 1 1) 1 2 2) 1 3 3) 1 4 4) 1 5 5) 1 6 6) 1 7 7) 1 8 8)"
  by (rule reachable.set [OF reach_7]) (simp add: row1_eval)

lemma reach_9: "reachable (set_cell (set_cell (set_cell (set_cell (set_cell (set_cell (set_cell (set_cell (set_cell (init_board b0) 1 1 1) 1 2 2) 1 3 3) 1 4 4) 1 5 5) 1 6 6) 1 7 7) 1 8 8) 1 9 9)"
  by (rule reachable.set [OF reach_8]) (simp add: row1_eval)

lemma step_1:
  "solve_board 892 (init_board b0) 1 1 =
   solve_board 892 (set_cell (init_board b0) 1 1 1) 1 1"
proof (rule peel [OF reach_0 _ _ _ _ _ _ _ solution_first_solution])
  show "find_unset (init_board b0) 1 1 = Some (1, 1)"
    by (simp add: find_unset.simps [of _ 1 1] find_unset.simps [of _ 1 1] next_cell_eq row1_eval)
  show "find_common_free (rows (init_board b0) 1) (columns (init_board b0) 1)
      (squares (init_board b0) (square 1 1)) 1 = 1"
    by (simp add: find_common_free.simps common_free_def MAX_NUM_def row1_eval)
  show "extends first_solution (set_cell (init_board b0) 1 1 1)"
    unfolding extends_def
    by (intro ballI impI) (simp add: first_solution_row1 row1_eval split: if_splits)
qed (simp_all add: row1_eval)

lemma step_2:
  "solve_board 892 (set_cell (init_board b0) 1 1 1) 1 1 =
   solve_board 892 (set_cell (set_cell (init_board b0) 1 1 1) 1 2 2) 1 2"
proof (rule peel [OF reach_1 _ _ _ _ _ _ _ solution_first_solution])
  show "find_unset (set_cell (init_board b0) 1 1 1) 1 1 = Some (1, 2)"
    by (simp add: find_unset.simps [of _ 1 1] find_unset.simps [of _ 1 2] next_cell_eq row1_eval)
  show "find_common_free (rows (set_cell (init_board b0) 1 1 1) 1) (columns (set_cell (init_board b0) 1 1 1) 2)
      (squares (set_cell (init_board b0) 1 1 1) (square 1 2)) 1 = 2"
    by (simp add: find_common_free.simps common_free_def MAX_NUM_def row1_eval)
  show "extends first_solution (set_cell (set_cell (init_board b0) 1 1 1) 1 2 2)"
    unfolding extends_def
    by (intro ballI impI) (simp add: first_solution_row1 row1_eval split: if_splits)
qed (simp_all add: row1_eval)

lemma step_3:
  "solve_board 892 (set_cell (set_cell (init_board b0) 1 1 1) 1 2 2) 1 2 =
   solve_board 892 (set_cell (set_cell (set_cell (init_board b0) 1 1 1) 1 2 2) 1 3 3) 1 3"
proof (rule peel [OF reach_2 _ _ _ _ _ _ _ solution_first_solution])
  show "find_unset (set_cell (set_cell (init_board b0) 1 1 1) 1 2 2) 1 2 = Some (1, 3)"
    by (simp add: find_unset.simps [of _ 1 2] find_unset.simps [of _ 1 3] next_cell_eq row1_eval)
  show "find_common_free (rows (set_cell (set_cell (init_board b0) 1 1 1) 1 2 2) 1) (columns (set_cell (set_cell (init_board b0) 1 1 1) 1 2 2) 3)
      (squares (set_cell (set_cell (init_board b0) 1 1 1) 1 2 2) (square 1 3)) 1 = 3"
    by (simp add: find_common_free.simps common_free_def MAX_NUM_def row1_eval)
  show "extends first_solution (set_cell (set_cell (set_cell (init_board b0) 1 1 1) 1 2 2) 1 3 3)"
    unfolding extends_def
    by (intro ballI impI) (simp add: first_solution_row1 row1_eval split: if_splits)
qed (simp_all add: row1_eval)

lemma step_4:
  "solve_board 892 (set_cell (set_cell (set_cell (init_board b0) 1 1 1) 1 2 2) 1 3 3) 1 3 =
   solve_board 892 (set_cell (set_cell (set_cell (set_cell (init_board b0) 1 1 1) 1 2 2) 1 3 3) 1 4 4) 1 4"
proof (rule peel [OF reach_3 _ _ _ _ _ _ _ solution_first_solution])
  show "find_unset (set_cell (set_cell (set_cell (init_board b0) 1 1 1) 1 2 2) 1 3 3) 1 3 = Some (1, 4)"
    by (simp add: find_unset.simps [of _ 1 3] find_unset.simps [of _ 1 4] next_cell_eq row1_eval)
  show "find_common_free (rows (set_cell (set_cell (set_cell (init_board b0) 1 1 1) 1 2 2) 1 3 3) 1) (columns (set_cell (set_cell (set_cell (init_board b0) 1 1 1) 1 2 2) 1 3 3) 4)
      (squares (set_cell (set_cell (set_cell (init_board b0) 1 1 1) 1 2 2) 1 3 3) (square 1 4)) 1 = 4"
    by (simp add: find_common_free.simps common_free_def MAX_NUM_def row1_eval)
  show "extends first_solution (set_cell (set_cell (set_cell (set_cell (init_board b0) 1 1 1) 1 2 2) 1 3 3) 1 4 4)"
    unfolding extends_def
    by (intro ballI impI) (simp add: first_solution_row1 row1_eval split: if_splits)
qed (simp_all add: row1_eval)

lemma step_5:
  "solve_board 892 (set_cell (set_cell (set_cell (set_cell (init_board b0) 1 1 1) 1 2 2) 1 3 3) 1 4 4) 1 4 =
   solve_board 892 (set_cell (set_cell (set_cell (set_cell (set_cell (init_board b0) 1 1 1) 1 2 2) 1 3 3) 1 4 4) 1 5 5) 1 5"
proof (rule peel [OF reach_4 _ _ _ _ _ _ _ solution_first_solution])
  show "find_unset (set_cell (set_cell (set_cell (set_cell (init_board b0) 1 1 1) 1 2 2) 1 3 3) 1 4 4) 1 4 = Some (1, 5)"
    by (simp add: find_unset.simps [of _ 1 4] find_unset.simps [of _ 1 5] next_cell_eq row1_eval)
  show "find_common_free (rows (set_cell (set_cell (set_cell (set_cell (init_board b0) 1 1 1) 1 2 2) 1 3 3) 1 4 4) 1) (columns (set_cell (set_cell (set_cell (set_cell (init_board b0) 1 1 1) 1 2 2) 1 3 3) 1 4 4) 5)
      (squares (set_cell (set_cell (set_cell (set_cell (init_board b0) 1 1 1) 1 2 2) 1 3 3) 1 4 4) (square 1 5)) 1 = 5"
    by (simp add: find_common_free.simps common_free_def MAX_NUM_def row1_eval)
  show "extends first_solution (set_cell (set_cell (set_cell (set_cell (set_cell (init_board b0) 1 1 1) 1 2 2) 1 3 3) 1 4 4) 1 5 5)"
    unfolding extends_def
    by (intro ballI impI) (simp add: first_solution_row1 row1_eval split: if_splits)
qed (simp_all add: row1_eval)

lemma step_6:
  "solve_board 892 (set_cell (set_cell (set_cell (set_cell (set_cell (init_board b0) 1 1 1) 1 2 2) 1 3 3) 1 4 4) 1 5 5) 1 5 =
   solve_board 892 (set_cell (set_cell (set_cell (set_cell (set_cell (set_cell (init_board b0) 1 1 1) 1 2 2) 1 3 3) 1 4 4) 1 5 5) 1 6 6) 1 6"
proof (rule peel [OF reach_5 _ _ _ _ _ _ _ solution_first_solution])
  show "find_unset (set_cell (set_cell (set_cell (set_cell (set_cell (init_board b0) 1 1 1) 1 2 2) 1 3 3) 1 4 4) 1 5 5) 1 5 = Some (1, 6)"
    by (simp add: find_unset.simps [of _ 1 5] find_unset.simps [of _ 1 6] next_cell_eq row1_eval)
  show "find_common_free (rows (set_cell (set_cell (set_cell (set_cell (set_cell (init_board b0) 1 1 1) 1 2 2) 1 3 3) 1 4 4) 1 5 5) 1) (columns (set_cell (set_cell (set_cell (set_cell (set_cell (init_board b0) 1 1 1) 1 2 2) 1 3 3) 1 4 4) 1 5 5) 6)
      (squares (set_cell (set_cell (set_cell (set_cell (set_cell (init_board b0) 1 1 1) 1 2 2) 1 3 3) 1 4 4) 1 5 5) (square 1 6)) 1 = 6"
    by (simp add: find_common_free.simps common_free_def MAX_NUM_def row1_eval)
  show "extends first_solution (set_cell (set_cell (set_cell (set_cell (set_cell (set_cell (init_board b0) 1 1 1) 1 2 2) 1 3 3) 1 4 4) 1 5 5) 1 6 6)"
    unfolding extends_def
    by (intro ballI impI) (simp add: first_solution_row1 row1_eval split: if_splits)
qed (simp_all add: row1_eval)

lemma step_7:
  "solve_board 892 (set_cell (set_cell (set_cell (set_cell (set_cell (set_cell (init_board b0) 1 1 1) 1 2 2) 1 3 3) 1 4 4) 1 5 5) 1 6 6) 1 6 =
   solve_board 892 (set_cell (set_cell (set_cell (set_cell (set_cell (set_cell (set_cell (init_board b0) 1 1 1) 1 2 2) 1 3 3) 1 4 4) 1 5 5) 1 6 6) 1 7 7) 1 7"
proof (rule peel [OF reach_6 _ _ _ _ _ _ _ solution_first_solution])
  show "find_unset (set_cell (set_cell (set_cell (set_cell (set_cell (set_cell (init_board b0) 1 1 1) 1 2 2) 1 3 3) 1 4 4) 1 5 5) 1 6 6) 1 6 = Some (1, 7)"
    by (simp add: find_unset.simps [of _ 1 6] find_unset.simps [of _ 1 7] next_cell_eq row1_eval)
  show "find_common_free (rows (set_cell (set_cell (set_cell (set_cell (set_cell (set_cell (init_board b0) 1 1 1) 1 2 2) 1 3 3) 1 4 4) 1 5 5) 1 6 6) 1) (columns (set_cell (set_cell (set_cell (set_cell (set_cell (set_cell (init_board b0) 1 1 1) 1 2 2) 1 3 3) 1 4 4) 1 5 5) 1 6 6) 7)
      (squares (set_cell (set_cell (set_cell (set_cell (set_cell (set_cell (init_board b0) 1 1 1) 1 2 2) 1 3 3) 1 4 4) 1 5 5) 1 6 6) (square 1 7)) 1 = 7"
    by (simp add: find_common_free.simps common_free_def MAX_NUM_def row1_eval)
  show "extends first_solution (set_cell (set_cell (set_cell (set_cell (set_cell (set_cell (set_cell (init_board b0) 1 1 1) 1 2 2) 1 3 3) 1 4 4) 1 5 5) 1 6 6) 1 7 7)"
    unfolding extends_def
    by (intro ballI impI) (simp add: first_solution_row1 row1_eval split: if_splits)
qed (simp_all add: row1_eval)

lemma step_8:
  "solve_board 892 (set_cell (set_cell (set_cell (set_cell (set_cell (set_cell (set_cell (init_board b0) 1 1 1) 1 2 2) 1 3 3) 1 4 4) 1 5 5) 1 6 6) 1 7 7) 1 7 =
   solve_board 892 (set_cell (set_cell (set_cell (set_cell (set_cell (set_cell (set_cell (set_cell (init_board b0) 1 1 1) 1 2 2) 1 3 3) 1 4 4) 1 5 5) 1 6 6) 1 7 7) 1 8 8) 1 8"
proof (rule peel [OF reach_7 _ _ _ _ _ _ _ solution_first_solution])
  show "find_unset (set_cell (set_cell (set_cell (set_cell (set_cell (set_cell (set_cell (init_board b0) 1 1 1) 1 2 2) 1 3 3) 1 4 4) 1 5 5) 1 6 6) 1 7 7) 1 7 = Some (1, 8)"
    by (simp add: find_unset.simps [of _ 1 7] find_unset.simps [of _ 1 8] next_cell_eq row1_eval)
  show "find_common_free (rows (set_cell (set_cell (set_cell (set_cell (set_cell (set_cell (set_cell (init_board b0) 1 1 1) 1 2 2) 1 3 3) 1 4 4) 1 5 5) 1 6 6) 1 7 7) 1) (columns (set_cell (set_cell (set_cell (set_cell (set_cell (set_cell (set_cell (init_board b0) 1 1 1) 1 2 2) 1 3 3) 1 4 4) 1 5 5) 1 6 6) 1 7 7) 8)
      (squares (set_cell (set_cell (set_cell (set_cell (set_cell (set_cell (set_cell (init_board b0) 1 1 1) 1 2 2) 1 3 3) 1 4 4) 1 5 5) 1 6 6) 1 7 7) (square 1 8)) 1 = 8"
    by (simp add: find_common_free.simps common_free_def MAX_NUM_def row1_eval)
  show "extends first_solution (set_cell (set_cell (set_cell (set_cell (set_cell (set_cell (set_cell (set_cell (init_board b0) 1 1 1) 1 2 2) 1 3 3) 1 4 4) 1 5 5) 1 6 6) 1 7 7) 1 8 8)"
    unfolding extends_def
    by (intro ballI impI) (simp add: first_solution_row1 row1_eval split: if_splits)
qed (simp_all add: row1_eval)

lemma step_9:
  "solve_board 892 (set_cell (set_cell (set_cell (set_cell (set_cell (set_cell (set_cell (set_cell (init_board b0) 1 1 1) 1 2 2) 1 3 3) 1 4 4) 1 5 5) 1 6 6) 1 7 7) 1 8 8) 1 8 =
   solve_board 892 (set_cell (set_cell (set_cell (set_cell (set_cell (set_cell (set_cell (set_cell (set_cell (init_board b0) 1 1 1) 1 2 2) 1 3 3) 1 4 4) 1 5 5) 1 6 6) 1 7 7) 1 8 8) 1 9 9) 1 9"
proof (rule peel [OF reach_8 _ _ _ _ _ _ _ solution_first_solution])
  show "find_unset (set_cell (set_cell (set_cell (set_cell (set_cell (set_cell (set_cell (set_cell (init_board b0) 1 1 1) 1 2 2) 1 3 3) 1 4 4) 1 5 5) 1 6 6) 1 7 7) 1 8 8) 1 8 = Some (1, 9)"
    by (simp add: find_unset.simps [of _ 1 8] find_unset.simps [of _ 1 9] next_cell_eq row1_eval)
  show "find_common_free (rows (set_cell (set_cell (set_cell (set_cell (set_cell (set_cell (set_cell (set_cell (init_board b0) 1 1 1) 1 2 2) 1 3 3) 1 4 4) 1 5 5) 1 6 6) 1 7 7) 1 8 8) 1) (columns (set_cell (set_cell (set_cell (set_cell (set_cell (set_cell (set_cell (set_cell (init_board b0) 1 1 1) 1 2 2) 1 3 3) 1 4 4) 1 5 5) 1 6 6) 1 7 7) 1 8 8) 9)
      (squares (set_cell (set_cell (set_cell (set_cell (set_cell (set_cell (set_cell (set_cell (init_board b0) 1 1 1) 1 2 2) 1 3 3) 1 4 4) 1 5 5) 1 6 6) 1 7 7) 1 8 8) (square 1 9)) 1 = 9"
    by (simp add: find_common_free.simps common_free_def MAX_NUM_def row1_eval)
  show "extends first_solution (set_cell (set_cell (set_cell (set_cell (set_cell (set_cell (set_cell (set_cell (set_cell (init_board b0) 1 1 1) 1 2 2) 1 3 3) 1 4 4) 1 5 5) 1 6 6) 1 7 7) 1 8 8) 1 9 9)"
    unfolding extends_def
    by (intro ballI impI) (simp add: first_solution_row1 row1_eval split: if_splits)
qed (simp_all add: row1_eval)

lemma empty_board_chain:
  "solve_board 892 (init_board b0) 1 1 =
   solve_board 892 (set_cell (set_cell (set_cell (set_cell (set_cell (set_cell (set_cell (set_cell (set_cell (init_board b0) 1 1 1) 1 2 2) 1 3 3) 1 4 4) 1 5 5) 1 6 6) 1 7 7) 1 8 8) 1 9 9) 1 9"
  by (simp only: step_1 step_2 step_3 step_4 step_5 step_6 step_7 step_8 step_9)

lemma extends_first_row: "extends first_solution (set_cell (set_cell (set_cell (set_cell (set_cell (set_cell (set_cell (set_cell (set_cell (init_board b0) 1 1 1) 1 2 2) 1 3 3) 1 4 4) 1 5 5) 1 6 6) 1 7 7) 1 8 8) 1 9 9)"
  unfolding extends_def
  by (intro ballI impI) (simp add: first_solution_row1 row1_eval split: if_splits)

lemma empty_board_succeeds:
  "\<exists>b'. solve_board 892 (init_board b0) MIN_NUM MIN_NUM = Some (1, b') \<and>
     kept (set_cell (set_cell (set_cell (set_cell (set_cell (set_cell (set_cell (set_cell (set_cell (init_board b0) 1 1 1) 1 2 2) 1 3 3) 1 4 4) 1 5 5) 1 6 6) 1 7 7) 1 8 8) 1 9 9) b'"
proof -
  from solvable_succeeds [OF reach_9 _ _ solution_first_solution extends_first_row, of 1 9 b0]
  obtain b' where res: "solve_board 892 (set_cell (set_cell (set_cell (set_cell (set_cell (set_cell (set_cell (set_cell (set_cell (init_board b0) 1 1 1) 1 2 2) 1 3 3) 1 4 4) 1 5 5) 1 6 6) 1 7 7) 1 8 8) 1 9 9) 1 9 = Some (1, b')"
    by auto
  from success_facts(3) [OF reach_9 _ _ res] have "kept (set_cell (set_cell (set_cell (set_cell (set_cell (set_cell (set_cell (set_cell (set_cell (init_board b0) 1 1 1) 1 2 2) 1 3 3) 1 4 4) 1 5 5) 1 6 6) 1 7 7) 1 8 8) 1 9 9) b'"
    by simp
  with res empty_board_chain [of b0] show ?thesis by (simp add: MIN_NUM_def)
qed

lemma solved_empty_result:
  "solve_board 892 (init_board zero_board) MIN_NUM MIN_NUM = Some (1, solved_empty)"
proof -
  from empty_board_succeeds [of zero_board] obtain b'
    where res: "solve_board 892 (init_board zero_board) MIN_NUM MIN_NUM = Some (1, b')" by blast
  have "solved_empty = b'" by (simp only: solved_empty_def res option.sel snd_conv)
  with res show ?thesis by (simp only:)
qed

lemma solved_empty_facts:
  "reachable solved_empty" "board_ok solved_empty" "unset_cells solved_empty = 0"
proof -
  have ne: "(1::int) \<noteq> 0" by simp
  note s = success_facts [OF reachable.init MIN_NUM_nums MIN_NUM_nums solved_empty_result ne]
  show "reachable solved_empty" by (rule s(5))
  show "board_ok solved_empty" by (rule s(2))
  show "unset_cells solved_empty = 0" by (rule s(4)) (rule swept_first)
qed

lemma first_row_given_reachable: "reachable first_row_given"
  unfolding first_row_given_def by (rule reach_9)

lemma first_row_given_succeeds:
  "\<exists>b'. solve_board 892 first_row_given MIN_NUM MIN_NUM = Some (1, b')"
  using solvable_succeeds [OF reach_9 MIN_NUM_nums MIN_NUM_nums solution_first_solution
      extends_first_row, of zero_board]
  by (simp add: first_row_given_def)

section \<open>Boards built without the preconditions\<close>

subsection \<open>Setting a cell and unsetting it again\<close>

lemma round_trip:
  assumes unset: "is_set b r c = 0" and val: "value' (cells b r c) = 0"
    and free: "common_free (deref b (row_candidates (cells b r c)))
      (deref b (col_candidates (cells b r c))) (deref b (square_candidates (cells b r c))) v"
  shows "unset_cell (set_cell b r c v) r c v = b"
proof (rule board.equality)
  from restored_undo [OF free unset restored_refl]
  have r: "restored b (unset_cell (set_cell b r c v) r c v)" .
  then show "rows (unset_cell (set_cell b r c v) r c v) = rows b"
    "columns (unset_cell (set_cell b r c v) r c v) = columns b"
    "squares (unset_cell (set_cell b r c v) r c v) = squares b"
    "unset_cells (unset_cell (set_cell b r c v) r c v) = unset_cells b"
    by (simp_all add: restored_def)
  have "(cells b r c)\<lparr>has_value := 0, value' := 0\<rparr> = cells b r c"
    using unset val by (simp add: is_set_def)
  then show "cells (unset_cell (set_cell b r c v) r c v) = cells b"
    by (simp add: unset_cell_cells set_cell_cells)
  show "board.more (unset_cell (set_cell b r c v) r c v) = board.more b"
    by simp
qed

lemma built_linked_tidy: "built b \<Longrightarrow> linked b \<and> tidy b"
proof (induction rule: built.induct)
  case (init b0)
  from board_ok_init_board [of b0] show ?case by (simp add: board_ok_def)
next
  case (set b r c val)
  then show ?case by (simp add: tidy_set_cell)
next
  case (unset b r c val)
  then show ?case by (simp add: tidy_unset_cell)
qed

lemma reachable_built: "reachable b \<Longrightarrow> built b"
  by (induction rule: reachable.induct)
     (auto intro: built.intros simp: can_set_def can_unset_def)

lemma placed_built: "placed b \<Longrightarrow> built b"
  by (induction rule: placed.induct) (auto intro: built.intros)

lemma tidy_unset_value:
  "tidy b \<Longrightarrow> r \<in> nums \<Longrightarrow> c \<in> nums \<Longrightarrow> is_set b r c = 0 \<Longrightarrow> value' (cells b r c) = 0"
  unfolding tidy_def by (simp split: if_splits)

subsection \<open>The cells that are set when the search starts\<close>

lemma set_cells_same_refl: "set_cells_same b b"
  by (simp add: set_cells_same_def)

lemma set_cells_same_trans:
  assumes "set_cells_same a b" "set_cells_same b c"
  shows "set_cells_same a c"
  unfolding set_cells_same_def
proof (intro allI impI)
  fix i j assume s: "is_set a i j \<noteq> 0"
  with assms(1) have eq: "cells b i j = cells a i j" by (simp add: set_cells_same_def)
  with s have "is_set b i j \<noteq> 0" by (simp add: is_set_def)
  with assms(2) eq show "cells c i j = cells a i j" by (simp add: set_cells_same_def)
qed

lemma set_cells_same_set_cell: "is_set b r c = 0 \<Longrightarrow> set_cells_same b (set_cell b r c v)"
  unfolding set_cells_same_def by (auto simp: set_cell_cells)

lemma set_cells_same_unset_cell:
  assumes "is_set b r c = 0" "set_cells_same b b2"
  shows "set_cells_same b (unset_cell b2 r c v)"
  unfolding set_cells_same_def
proof (intro allI impI)
  fix i j assume s: "is_set b i j \<noteq> 0"
  with assms(1) have "\<not> (i = r \<and> j = c)" by auto
  then have "cells (unset_cell b2 r c v) i j = cells b2 i j" by (auto simp: unset_cell_cells)
  with assms(2) s show "cells (unset_cell b2 r c v) i j = cells b i j"
    by (simp add: set_cells_same_def)
qed

lemma set_cells_same_aux:
  "(\<forall>b r c ret b'. solve_board n b r c = Some (ret, b') \<longrightarrow> set_cells_same b b') \<and>
   (\<forall>b r c prev ret b'. is_set b r c = 0 \<longrightarrow> try_values n b r c prev = Some (ret, b') \<longrightarrow>
      set_cells_same b b')"
proof (induction n)
  case 0
  show ?case by simp
next
  case (Suc n)
  then have IHs: "\<And>b r c ret b'. solve_board n b r c = Some (ret, b') \<Longrightarrow> set_cells_same b b'"
    and IHt: "\<And>b r c prev ret b'. is_set b r c = 0 \<Longrightarrow>
      try_values n b r c prev = Some (ret, b') \<Longrightarrow> set_cells_same b b'"
    by blast+
  have solve: "set_cells_same b b'" if res: "solve_board (Suc n) b r c = Some (ret, b')"
    for b r c ret b'
  proof (cases "unset_cells b = 0")
    case True
    with res show ?thesis by (simp add: set_cells_same_refl)
  next
    case False
    with res obtain r' c' where f: "find_unset b r c = Some (r', c')"
      by (auto split: option.splits)
    show ?thesis
    proof (cases "is_set b r' c' = 0")
      case True
      with res f False have "try_values n b r' c' MIN_NUM = Some (ret, b')" by simp
      with True show ?thesis by (rule IHt)
    next
      case set: False
      with res f False show ?thesis by (simp add: set_cells_same_refl)
    qed
  qed
  have loop: "set_cells_same b b'"
    if unset: "is_set b r c = 0" and res: "try_values (Suc n) b r c prev = Some (ret, b')"
    for b r c prev ret b'
  proof -
    define v where "v = find_common_free (deref b (row_candidates (cells b r c)))
      (deref b (col_candidates (cells b r c))) (deref b (square_candidates (cells b r c))) prev"
    show ?thesis
    proof (cases "v = - 1")
      case True
      with res show ?thesis by (simp add: v_def [symmetric] set_cells_same_refl)
    next
      case False
      with res obtain ret1 b2
        where rec: "solve_board n (set_cell b r c v) r c = Some (ret1, b2)"
        by (auto simp: v_def [symmetric] Let_def split: option.splits)
      from set_cells_same_set_cell [OF unset] IHs [OF rec]
      have s2: "set_cells_same b b2" by (rule set_cells_same_trans)
      show ?thesis
      proof (cases "ret1 = 0")
        case nz: False
        with res rec \<open>v \<noteq> - 1\<close> have "b' = b2" by (simp add: v_def [symmetric])
        with s2 show ?thesis by simp
      next
        case True
        with res rec \<open>v \<noteq> - 1\<close>
        have rest: "try_values n (unset_cell b2 r c v) r c (v + 1) = Some (ret, b')"
          by (simp add: v_def [symmetric])
        have "is_set (unset_cell b2 r c v) r c = 0" by simp
        from set_cells_same_unset_cell [OF unset s2] IHt [OF this rest]
        show ?thesis by (rule set_cells_same_trans)
      qed
    qed
  qed
  from solve loop show ?case by blast
qed

subsection \<open>The counter along the calls of the search\<close>

lemma all_set_counter_eq:
  assumes cnt: "unset_cells b = int (card (unset_positions b))" and sw: "swept b r c"
    and sc: "scanned b r c r' c'" and set: "is_set b r' c' \<noteq> 0"
  shows "unset_cells b = 0"
proof -
  from scannedD(5) [OF sc set] have last: "r' = 9" "c' = 9" by simp_all
  from swept_scanned [OF sw sc] have sw9: "swept b 9 9" by (simp add: last)
  have "is_set b (fst p) (snd p) \<noteq> 0" if "p \<in> positions" for p
  proof (cases "p = (9, 9)")
    case True
    with set last show ?thesis by simp
  next
    case False
    from sw9 that before_last [OF that False] show ?thesis by (rule sweptD)
  qed
  then have "unset_positions b = {}"
    by (auto simp: unset_positions_def)
  with cnt show ?thesis by simp
qed

lemma counter_set_cell:
  assumes "unset_cells b = int (card (unset_positions b))" "r \<in> nums" "c \<in> nums" "is_set b r c = 0"
  shows "unset_cells (set_cell b r c v) = int (card (unset_positions (set_cell b r c v)))"
proof -
  have "(r, c) \<in> unset_positions b" using assms(2-4) by (simp add: unset_positions_iff)
  moreover from this have "card (unset_positions b) > 0" using card_gt_0_iff by fastforce
  ultimately show ?thesis using assms(1) by (simp add: unset_positions_set_cell)
qed

lemma placed_counter: "placed b \<Longrightarrow> unset_cells b = int (card (unset_positions b))"
proof (induction rule: placed.induct)
  case (init b0)
  show ?case by (simp add: init_board_fields unset_positions_init_board card_positions)
next
  case (set b r c val)
  then show ?case by (simp only: counter_set_cell)
qed

lemma restored_swept: "restored b b' \<Longrightarrow> swept b r c \<Longrightarrow> swept b' r c"
  by (simp add: restored_def swept_def)

lemma called_looping_counter:
  assumes cnt: "unset_cells b0 = int (card (unset_positions b0))"
  shows "called b0 b r c \<Longrightarrow>
      unset_cells b = int (card (unset_positions b)) \<and> r \<in> nums \<and> c \<in> nums \<and> swept b r c"
    and "looping b0 b r c prev \<Longrightarrow>
      unset_cells b = int (card (unset_positions b)) \<and> r \<in> nums \<and> c \<in> nums \<and> swept b r c \<and>
      is_set b r c = 0"
proof (induction rule: called_looping.inducts)
  case top
  from cnt show ?case by (simp add: swept_first)
next
  case (enter b r c r' c')
  from find_unset_scanned [of r c b] enter have sc: "scanned b r c r' c'" by auto
  from enter swept_scanned [OF _ sc] scannedD(1,2) [OF sc] show ?case by simp
next
  case (recurse b r c prev val)
  from recurse.IH have i: "unset_cells b = int (card (unset_positions b))" "r \<in> nums"
    "c \<in> nums" "swept b r c" "is_set b r c = 0" by simp_all
  from counter_set_cell [OF i(1,2,3,5)] swept_set_cell [OF i(4)] i(2,3) show ?case by simp
next
  case (again b r c prev val n b')
  from fcf_free [OF again.hyps(1,2)]
  have free: "common_free (deref b (row_candidates (cells b r c)))
    (deref b (col_candidates (cells b r c))) (deref b (square_candidates (cells b r c))) val"
    by simp
  from again.IH have unset: "is_set b r c = 0" by simp
  from failure_restores [of n] again.hyps(3) have "restored (set_cell b r c val) b'" by blast
  from restored_undo [OF free unset this] have r: "restored b (unset_cell b' r c val)" .
  from r have "unset_cells (unset_cell b' r c val) = unset_cells b" by (simp add: restored_def)
  with again.IH restored_unset_positions [OF r] restored_swept [OF r] show ?case by simp
qed


subsection \<open>Two clashing givens\<close>

lemma clash_linked: "linked clash_board"
  by (simp add: clash_board_def)

lemma clash_built: "built clash_board"
  unfolding clash_board_def by (intro built.set built.init) simp_all

lemma clash_placed: "placed clash_board"
  unfolding clash_board_def by (intro placed.set placed.init) (simp_all add: is_set_init_board)

lemma clash_not_reachable: "\<not> reachable clash_board"
proof
  assume "reachable clash_board"
  then have "board_ok clash_board" by (rule reachable_board_ok)
  then have "no_clash clash_board" by (simp add: board_ok_def)
  from no_clashD [OF this, of 1 1 1 2] show False by (simp add: clash_board_def)
qed

lemma clash_free:
  "is_set clash_board 1 3 = 0"
  "value' (cells clash_board 1 3) = 0"
  "common_free (deref clash_board (row_candidates (cells clash_board 1 3)))
     (deref clash_board (col_candidates (cells clash_board 1 3)))
     (deref clash_board (square_candidates (cells clash_board 1 3))) 1"
proof -
  show u: "is_set clash_board 1 3 = 0" by (simp add: clash_board_def is_set_init_board)
  from built_linked_tidy [OF clash_built] have "tidy clash_board" by simp
  then show "value' (cells clash_board 1 3) = 0" using u by (simp add: tidy_unset_value)
  have "can_set clash_board 1 3 1"
    by (simp add: can_set_linked [OF clash_linked])
       (simp add: clash_board_def board_eval is_set_init_board zero_board_def)
  then show "common_free (deref clash_board (row_candidates (cells clash_board 1 3)))
     (deref clash_board (col_candidates (cells clash_board 1 3)))
     (deref clash_board (square_candidates (cells clash_board 1 3))) 1"
    by (simp add: can_set_def)
qed

section \<open>The claims about the search\<close>



text \<open>
  Claim C2. For every board state and starting position, if \<open>solve_board\<close> returns failure
  (\<open>0\<close>), the board is left as it was found: the counter of unset cells, the set flag of
  every cell and all marks of the rows, columns and squares have their values from before the
  search. On a board state of the program (built by \<open>init_board\<close>, \<open>set_cell\<close> and
  \<open>unset_cell\<close>) and a position of the grid, the board returned is the very same record.
\<close>

theorem failed_search_restores_board:
  "solve_board n b r c = Some (0, b') \<Longrightarrow>
     unset_cells b' = unset_cells b \<and> (\<forall>i j. is_set b' i j = is_set b i j) \<and>
     rows b' = rows b \<and> columns b' = columns b \<and> squares b' = squares b \<and>
     (reachable b \<longrightarrow> r \<in> nums \<longrightarrow> c \<in> nums \<longrightarrow> b' = b)"
proof -
  assume res: "solve_board n b r c = Some (0, b')"
  have "b' = b" if "reachable b" "r \<in> nums" "c \<in> nums"
    using solve_board_outcome [OF reachable_board_ok [OF that(1)] that(2,3) res]
    by (simp add: outcome_def)
  with res failure_restores [of n] show ?thesis unfolding restored_def by blast
qed

theorem failed_search_restores_board_witness:
  "solve_board 5 stuck_board 1 1 = Some (0, unset_cell (set_cell stuck_board 1 1 9) 1 1 9) \<and>
   unset_cells (unset_cell (set_cell stuck_board 1 1 9) 1 1 9) = unset_cells stuck_board \<and>
   (\<forall>i j. is_set (unset_cell (set_cell stuck_board 1 1 9) 1 1 9) i j = is_set stuck_board i j) \<and>
   rows (unset_cell (set_cell stuck_board 1 1 9) 1 1 9) = rows stuck_board \<and>
   columns (unset_cell (set_cell stuck_board 1 1 9) 1 1 9) = columns stuck_board \<and>
   squares (unset_cell (set_cell stuck_board 1 1 9) 1 1 9) = squares stuck_board \<and>
   reachable stuck_board \<and> (1::int) \<in> nums \<and>
   unset_cell (set_cell stuck_board 1 1 9) 1 1 9 = stuck_board"
  using failed_search_restores_board [OF stuck_fails] stuck_fails stuck_reachable
  by simp

text \<open>
  Claim C4. On a board whose set cells were all placed by \<^verbatim>\<open>set_cell\<close> the counter is the
  number of unset cells of the grid, whether or not the givens clash. For every board with
  such a counter, in every call of \<open>solve_board\<close> that a top-level call at \<open>(1, 1)\<close> makes:
  if the scan stops at a set cell (it found no unset cell), then the counter of unset cells
  is \<open>0\<close>, so the call has already returned at the check of the counter and the branch
  that returns success after the scan is never taken.
\<close>

theorem defensive_branch_unreachable:
  "(placed b0 \<longrightarrow> unset_cells b0 = int (card (unset_positions b0))) \<and>
   (unset_cells b0 = int (card (unset_positions b0)) \<longrightarrow> called b0 b r c \<longrightarrow>
      find_unset b r c = Some (r', c') \<longrightarrow> is_set b r' c' \<noteq> 0 \<longrightarrow> unset_cells b = 0)"
proof (intro conjI impI)
  assume "placed b0"
  then show "unset_cells b0 = int (card (unset_positions b0))" by (rule placed_counter)
next
  assume c0: "unset_cells b0 = int (card (unset_positions b0))" and call: "called b0 b r c"
    and f: "find_unset b r c = Some (r', c')" and set: "is_set b r' c' \<noteq> 0"
  from called_looping_counter(1) [OF c0 call]
  have inv: "unset_cells b = int (card (unset_positions b))" "r \<in> nums" "c \<in> nums"
    "swept b r c" by simp_all
  from find_unset_scanned [OF inv(2,3), of b] f have "scanned b r c r' c'" by auto
  with inv(1,4) show "unset_cells b = 0" using set by (rule all_set_counter_eq)
qed

theorem defensive_branch_unreachable_witness:
  "placed clash_board \<and> unset_cells clash_board = int (card (unset_positions clash_board)) \<and>
   unset_cells solved_empty = int (card (unset_positions solved_empty)) \<and>
   called solved_empty solved_empty MIN_NUM MIN_NUM \<and>
   find_unset solved_empty MIN_NUM MIN_NUM = Some (9, 9) \<and> is_set solved_empty 9 9 \<noteq> 0 \<and>
   unset_cells solved_empty = 0"
proof -
  from find_unset_scanned [OF MIN_NUM_nums MIN_NUM_nums, of solved_empty] obtain r' c'
    where f: "find_unset solved_empty MIN_NUM MIN_NUM = Some (r', c')"
      and sc: "scanned solved_empty MIN_NUM MIN_NUM r' c'" by blast
  from all_set_if_counter_0 [OF solved_empty_facts(2,3) scannedD(1,2) [OF sc]]
  have set: "is_set solved_empty r' c' \<noteq> 0" .
  from scannedD(5) [OF sc set] have last: "r' = 9" "c' = 9" by simp_all
  from reachable_board_ok [OF solved_empty_facts(1)]
  have cnt: "unset_cells solved_empty = int (card (unset_positions solved_empty))"
    by (simp add: board_ok_def board_invariant_def)
  from defensive_branch_unreachable [of clash_board] clash_placed
  have c: "unset_cells clash_board = int (card (unset_positions clash_board))" by simp
  from defensive_branch_unreachable [of solved_empty solved_empty MIN_NUM MIN_NUM r' c']
    cnt called_looping.top [of solved_empty] f set
  have z: "unset_cells solved_empty = 0" by simp
  from c z clash_placed cnt called_looping.top [of solved_empty] f set last
  show ?thesis by simp
qed

text \<open>
  Claim C6. For every board, every position and every amount of fuel, if \<open>solve_board\<close>
  returns success, every cell that was set before the search is unchanged in the final grid:
  it has the same flag and the same value (and the same pointers). Nothing is assumed of the
  board: the givens may clash.
\<close>

theorem givens_unchanged:
  "solve_board n b r c = Some (ret, b') \<Longrightarrow> ret \<noteq> 0 \<Longrightarrow>
     \<forall>i j. is_set b i j \<noteq> 0 \<longrightarrow> cells b' i j = cells b i j"
  using set_cells_same_aux [of n] unfolding set_cells_same_def by blast

theorem givens_unchanged_witness:
  "(1::int) \<noteq> 0 \<and>
   (\<exists>b'. solve_board 892 first_row_given MIN_NUM MIN_NUM = Some (1, b') \<and>
      is_set first_row_given 1 5 \<noteq> 0 \<and> value' (cells first_row_given 1 5) = 5 \<and>
      cells b' 1 5 = cells first_row_given 1 5)"
proof -
  from first_row_given_succeeds obtain b'
    where res: "solve_board 892 first_row_given MIN_NUM MIN_NUM = Some (1, b')" by blast
  have set: "is_set first_row_given 1 5 \<noteq> 0" "value' (cells first_row_given 1 5) = 5"
    by (simp_all add: first_row_given_def)
  from givens_unchanged [OF res] set
  have "cells b' 1 5 = cells first_row_given 1 5" by simp
  with res set show ?thesis by auto
qed

text \<open>
  Claim C7. \<open>unset_cell\<close> is the exact inverse of \<open>set_cell\<close>. On every board, if the cell
  is unset (its flag and its value field are \<open>0\<close>, as \<^verbatim>\<open>init_board\<close> and \<^verbatim>\<open>unset_cell\<close>
  leave them) and the value is unused in the three arrays the cell points to, then setting
  the cell and unsetting it again gives back the same board, field by field. In particular
  this holds in every board state built by calls of \<^verbatim>\<open>set_cell\<close> and \<^verbatim>\<open>unset_cell\<close> with
  arguments in range, also when the givens clash.
\<close>

theorem unset_cell_inverts_set_cell:
  "(is_set b r c = 0 \<and> value' (cells b r c) = 0 \<and>
    common_free (deref b (row_candidates (cells b r c))) (deref b (col_candidates (cells b r c)))
      (deref b (square_candidates (cells b r c))) v \<longrightarrow>
    unset_cell (set_cell b r c v) r c v = b) \<and>
   (built b \<and> r \<in> nums \<and> c \<in> nums \<and> is_set b r c = 0 \<and>
    common_free (deref b (row_candidates (cells b r c))) (deref b (col_candidates (cells b r c)))
      (deref b (square_candidates (cells b r c))) v \<longrightarrow>
    unset_cell (set_cell b r c v) r c v = b)"
proof (intro conjI impI)
  assume "is_set b r c = 0 \<and> value' (cells b r c) = 0 \<and>
    common_free (deref b (row_candidates (cells b r c))) (deref b (col_candidates (cells b r c)))
      (deref b (square_candidates (cells b r c))) v"
  then show "unset_cell (set_cell b r c v) r c v = b" by (simp add: round_trip)
next
  assume a: "built b \<and> r \<in> nums \<and> c \<in> nums \<and> is_set b r c = 0 \<and>
    common_free (deref b (row_candidates (cells b r c))) (deref b (col_candidates (cells b r c)))
      (deref b (square_candidates (cells b r c))) v"
  then have "tidy b" using built_linked_tidy [of b] by simp
  with a have "value' (cells b r c) = 0" by (simp add: tidy_unset_value)
  with a show "unset_cell (set_cell b r c v) r c v = b" by (simp add: round_trip)
qed

theorem unset_cell_inverts_set_cell_witness:
  "built clash_board \<and> 1 \<in> nums \<and> 3 \<in> nums \<and>
   is_set clash_board 1 3 = 0 \<and> value' (cells clash_board 1 3) = 0 \<and>
   common_free (deref clash_board (row_candidates (cells clash_board 1 3)))
     (deref clash_board (col_candidates (cells clash_board 1 3)))
     (deref clash_board (square_candidates (cells clash_board 1 3))) 1 \<and>
   unset_cell (set_cell clash_board 1 3 1) 1 3 1 = clash_board"
  using unset_cell_inverts_set_cell [of clash_board 1 3 1] clash_built clash_free
  by simp

text \<open>
  Claim C8. \<open>solve_board\<close> returns on every board state and every starting position of the
  grid: 892 units of fuel always suffice (eleven per unset cell and one more), and more fuel
  gives the same result. The number of unset cells is at most 81 and gets smaller with the
  assignment before every recursive call, and the floor of the candidate loop grows with every
  iteration.
\<close>

theorem solve_board_terminates:
  "r \<in> nums \<Longrightarrow> c \<in> nums \<Longrightarrow>
     (\<exists>ret b'. solve_board 892 b r c = Some (ret, b') \<and>
        (\<forall>n\<ge>892. solve_board n b r c = Some (ret, b'))) \<and>
     card (unset_positions b) \<le> 81 \<and>
     (\<forall>v. is_set b r c = 0 \<longrightarrow>
        card (unset_positions (set_cell b r c v)) < card (unset_positions b)) \<and>
     (\<forall>rs cs ss prev. find_common_free rs cs ss prev \<noteq> - 1 \<longrightarrow>
        prev < find_common_free rs cs ss prev + 1)"
proof (intro conjI allI impI)
  assume rc: "r \<in> nums" "c \<in> nums"
  from solve_board_returns [OF rc order_refl] obtain ret b'
    where res: "solve_board 892 b r c = Some (ret, b')" by blast
  then have "\<forall>n\<ge>892. solve_board n b r c = Some (ret, b')" by (blast intro: fuel_mono)
  with res show "\<exists>ret b'. solve_board 892 b r c = Some (ret, b') \<and>
      (\<forall>n\<ge>892. solve_board n b r c = Some (ret, b'))" by blast
  show "card (unset_positions b) \<le> 81" by (rule card_unset_positions_le)
  show "card (unset_positions (set_cell b r c v)) < card (unset_positions b)"
    if "is_set b r c = 0" for v
    using rc that by (rule card_unset_positions_set_cell)
  show "prev < find_common_free rs cs ss prev + 1"
    if "find_common_free rs cs ss prev \<noteq> - 1" for rs cs ss prev
    using fcf_found [OF that] by simp
qed

theorem solve_board_terminates_witness:
  "(1::int) \<in> nums \<and>
   (\<exists>ret b'. solve_board 892 (init_board zero_board) 1 1 = Some (ret, b')) \<and>
   card (unset_positions (init_board zero_board)) \<le> 81 \<and>
   is_set (init_board zero_board) 1 1 = 0 \<and>
   card (unset_positions (set_cell (init_board zero_board) 1 1 5)) <
     card (unset_positions (init_board zero_board))"
proof -
  have 1: "(1::int) \<in> nums" by simp
  have 2: "is_set (init_board zero_board) 1 1 = 0" by (simp add: is_set_init_board)
  from solve_board_terminates [OF 1 1, of "init_board zero_board"] 1 2 show ?thesis by blast
qed

text \<open>
  Claim C9. On the empty board (\<open>init_board\<close> on any board variable, no givens)
  \<open>solve_board\<close> started at \<open>(1, 1)\<close> returns success, and the first row of the grid it
  leaves is \<open>1 2 3 4 5 6 7 8 9\<close>.
\<close>

theorem empty_board_first_row:
  "\<exists>b'. solve_board 892 (init_board b0) MIN_NUM MIN_NUM = Some (1, b') \<and>
     row_values b' 1 = [1, 2, 3, 4, 5, 6, 7, 8, 9]"
proof -
  from empty_board_succeeds [of b0] obtain b'
    where res: "solve_board 892 (init_board b0) MIN_NUM MIN_NUM = Some (1, b')"
      and k: "kept (set_cell (set_cell (set_cell (set_cell (set_cell (set_cell (set_cell (set_cell (set_cell (init_board b0) 1 1 1) 1 2 2) 1 3 3) 1 4 4) 1 5 5) 1 6 6) 1 7 7) 1 8 8) 1 9 9) b'"
    by blast
  have "cells b' 1 j = cells (set_cell (set_cell (set_cell (set_cell (set_cell (set_cell (set_cell (set_cell (set_cell (init_board b0) 1 1 1) 1 2 2) 1 3 3) 1 4 4) 1 5 5) 1 6 6) 1 7 7) 1 8 8) 1 9 9) 1 j"
    if "j \<in> nums" for j
    using k that unfolding kept_def by (auto simp: nums_iff)
  then have "row_values b' 1 = [1, 2, 3, 4, 5, 6, 7, 8, 9]"
    by (simp add: row_values_def MIN_NUM_def MAX_NUM_def upto_1_9)
  with res show ?thesis by blast
qed

theorem empty_board_first_row_witness:
  "solve_board 892 (init_board zero_board) MIN_NUM MIN_NUM = Some (1, solved_empty) \<and>
   row_values solved_empty 1 = [1, 2, 3, 4, 5, 6, 7, 8, 9]"
  using empty_board_first_row [of zero_board] solved_empty_result by auto

section \<open>Reading a board\<close>

lemma fgetc_Cons: "fgetc \<lparr>unread = x # xs, eof_indicator = e\<rparr> = (of_char x, \<lparr>unread = xs, eof_indicator = e\<rparr>)"
  by (simp add: fgetc_def)

lemma fgetc_Nil: "fgetc \<lparr>unread = [], eof_indicator = e\<rparr> = (EOF, \<lparr>unread = [], eof_indicator = True\<rparr>)"
  by (simp add: fgetc_def)

declare read_loop.simps [simp del]

lemma read_loop_eof: "read_loop \<lparr>unread = xs, eof_indicator = True\<rparr> b row col = b"
  by (subst read_loop.simps) (simp add: feof_def)

lemma read_loop_end: "read_loop \<lparr>unread = [], eof_indicator = False\<rparr> b row col = b"
  by (subst read_loop.simps)
     (simp add: feof_def fgetc_Nil EOF_def isdigit_def read_loop_eof)

lemma char_of_digits:
  "char_of (49::int) = CHR ''1''" "char_of (50::int) = CHR ''2''" "char_of (51::int) = CHR ''3''"
  "char_of (52::int) = CHR ''4''" "char_of (53::int) = CHR ''5''" "char_of (54::int) = CHR ''6''"
  "char_of (55::int) = CHR ''7''" "char_of (56::int) = CHR ''8''" "char_of (57::int) = CHR ''9''"
  by code_simp+

lemma digit_char:
  "(isdigit (of_char x) \<and> (of_char x :: int) \<noteq> of_char CHR ''0'') = (x \<in> set ''123456789'')"
proof -
  have "x \<in> set ''123456789''" if "49 \<le> (of_char x :: int)" "(of_char x :: int) \<le> 57"
  proof -
    from that have "(of_char x :: int) \<in> {49, 50, 51, 52, 53, 54, 55, 56, 57}" by auto
    then have "char_of (of_char x :: int) \<in> char_of ` {49, 50, 51, 52, 53, 54, 55, 56, 57 :: int}"
      by (rule imageI)
    then have "x \<in> char_of ` {49, 50, 51, 52, 53, 54, 55, 56, 57 :: int}"
      by (simp only: char_of_char)
    then show ?thesis by (simp only: image_insert image_empty char_of_digits) simp
  qed
  moreover have "49 \<le> (of_char x :: int) \<and> (of_char x :: int) \<le> 57" if "x \<in> set ''123456789''"
    using that by auto
  ultimately show ?thesis by (auto simp: isdigit_def)
qed

lemma dot_char: "((of_char x :: int) = of_char CHR ''.'') = (x = CHR ''.'')"
  by (metis char_of_char)

lemma read_loop_Cons:
  "read_loop \<lparr>unread = x # xs, eof_indicator = False\<rparr> b row col =
     (if x \<in> set ''123456789'' \<or> x = CHR ''.''
      then (let b' = (if x \<noteq> CHR ''.''
                      then set_cell b row col (of_char x - of_char CHR ''0'') else b)
            in (case next_cell row col of
                  (ret, row', col') \<Rightarrow>
                    if ret = 0 then b' else read_loop \<lparr>unread = xs, eof_indicator = False\<rparr> b' row' col'))
      else read_loop \<lparr>unread = xs, eof_indicator = False\<rparr> b row col)"
proof -
  have cell: "((isdigit (of_char x) \<and> (of_char x :: int) \<noteq> of_char CHR ''0'') \<or>
      (of_char x :: int) = of_char CHR ''.'') = (x \<in> set ''123456789'' \<or> x = CHR ''.'')"
    by (simp only: digit_char dot_char)
  have dot: "((of_char x :: int) \<noteq> of_char CHR ''.'') = (x \<noteq> CHR ''.'')"
    by (simp only: dot_char)
  show ?thesis
    by (subst read_loop.simps)
       (simp only: feof_def fgetc_Cons cell dot FILE.simps if_False prod.case)
qed

text \<open>
  Claim C10. In \<open>read_board\<close> the character \<open>0\<close> is skipped like every other ignored
  character: it sets no cell and the position stays. Only \<open>1\<close> to \<open>9\<close> set the current cell
  (to the digit's value) and advance, and only \<open>.\<close> advances leaving the cell unset. After a
  cell character at the last position \<open>(9, 9)\<close> reading stops, whatever follows; it also
  stops at the end of the input.
\<close>

theorem read_board_characters:
  "read_board f b = read_loop f b MIN_NUM MIN_NUM \<and>
   read_loop \<lparr>unread = CHR ''0'' # xs, eof_indicator = False\<rparr> b row col = read_loop \<lparr>unread = xs, eof_indicator = False\<rparr> b row col \<and>
   (x \<notin> set ''123456789.'' \<longrightarrow>
      read_loop \<lparr>unread = x # xs, eof_indicator = False\<rparr> b row col = read_loop \<lparr>unread = xs, eof_indicator = False\<rparr> b row col) \<and>
   (x \<in> set ''123456789'' \<longrightarrow> row \<in> nums \<longrightarrow> col \<in> nums \<longrightarrow>
      read_loop \<lparr>unread = x # xs, eof_indicator = False\<rparr> b row col =
        (if row = 9 \<and> col = 9 then set_cell b row col (of_char x - of_char CHR ''0'')
         else read_loop \<lparr>unread = xs, eof_indicator = False\<rparr> (set_cell b row col (of_char x - of_char CHR ''0''))
                (if col = 9 then row + 1 else row) (if col = 9 then 1 else col + 1))) \<and>
   (row \<in> nums \<longrightarrow> col \<in> nums \<longrightarrow>
      read_loop \<lparr>unread = CHR ''.'' # xs, eof_indicator = False\<rparr> b row col =
        (if row = 9 \<and> col = 9 then b
         else read_loop \<lparr>unread = xs, eof_indicator = False\<rparr> b
                (if col = 9 then row + 1 else row) (if col = 9 then 1 else col + 1))) \<and>
   read_loop \<lparr>unread = [], eof_indicator = False\<rparr> b row col = b"
proof (intro conjI impI)
  show "read_board f b = read_loop f b MIN_NUM MIN_NUM" by (rule read_board_def)
  show "read_loop \<lparr>unread = CHR ''0'' # xs, eof_indicator = False\<rparr> b row col = read_loop \<lparr>unread = xs, eof_indicator = False\<rparr> b row col"
    by (subst read_loop_Cons) simp
  show "read_loop \<lparr>unread = x # xs, eof_indicator = False\<rparr> b row col = read_loop \<lparr>unread = xs, eof_indicator = False\<rparr> b row col"
    if "x \<notin> set ''123456789.''"
    using that by (subst read_loop_Cons) simp
  show "read_loop \<lparr>unread = x # xs, eof_indicator = False\<rparr> b row col =
        (if row = 9 \<and> col = 9 then set_cell b row col (of_char x - of_char CHR ''0'')
         else read_loop \<lparr>unread = xs, eof_indicator = False\<rparr> (set_cell b row col (of_char x - of_char CHR ''0''))
                (if col = 9 then row + 1 else row) (if col = 9 then 1 else col + 1))"
    if "x \<in> set ''123456789''" "row \<in> nums" "col \<in> nums"
  proof -
    from that(1) have "x \<noteq> CHR ''.''" by auto
    with that show ?thesis by (subst read_loop_Cons) (simp add: next_cell_eq)
  qed
  show "read_loop \<lparr>unread = CHR ''.'' # xs, eof_indicator = False\<rparr> b row col =
        (if row = 9 \<and> col = 9 then b
         else read_loop \<lparr>unread = xs, eof_indicator = False\<rparr> b
                (if col = 9 then row + 1 else row) (if col = 9 then 1 else col + 1))"
    if "row \<in> nums" "col \<in> nums"
    using that by (subst read_loop_Cons) (simp add: next_cell_eq)
  show "read_loop \<lparr>unread = [], eof_indicator = False\<rparr> b row col = b" by (rule read_loop_end)
qed

theorem read_board_characters_witness:
  "CHR ''x'' \<notin> set ''123456789.'' \<and> CHR ''7'' \<in> set ''123456789'' \<and>
   (1::int) \<in> nums \<and> (9::int) \<in> nums \<and>
   read_board \<lparr>unread = ''0x7.0'', eof_indicator = False\<rparr> (init_board zero_board) =
     set_cell (init_board zero_board) 1 1 7 \<and>
   read_loop \<lparr>unread = ''7123'', eof_indicator = False\<rparr> (init_board zero_board) 9 9 =
     set_cell (init_board zero_board) 9 9 7 \<and>
   read_loop \<lparr>unread = ''.123'', eof_indicator = False\<rparr> (init_board zero_board) 9 9 = init_board zero_board"
proof -
  let ?e = "init_board zero_board"
  have x: "CHR ''x'' \<notin> set ''123456789.''" and d: "CHR ''7'' \<in> set ''123456789''" by simp_all
  have n: "(1::int) \<in> nums" "(9::int) \<in> nums" by simp_all
  have v: "(of_char CHR ''7'' :: int) - of_char CHR ''0'' = 7" by simp
  note zero = read_board_characters [THEN conjunct2, THEN conjunct1]
  note skip = read_board_characters [THEN conjunct2, THEN conjunct2, THEN conjunct1, rule_format]
  note digit = read_board_characters [THEN conjunct2, THEN conjunct2, THEN conjunct2,
      THEN conjunct1, rule_format]
  note dot = read_board_characters [THEN conjunct2, THEN conjunct2, THEN conjunct2,
      THEN conjunct2, THEN conjunct1, rule_format]
  note fin = read_board_characters [THEN conjunct2, THEN conjunct2, THEN conjunct2,
      THEN conjunct2, THEN conjunct2]
  have "read_board \<lparr>unread = ''0x7.0'', eof_indicator = False\<rparr> ?e = read_loop \<lparr>unread = ''0x7.0'', eof_indicator = False\<rparr> ?e MIN_NUM MIN_NUM"
    by (rule read_board_characters [THEN conjunct1])
  also have "\<dots> = read_loop \<lparr>unread = ''x7.0'', eof_indicator = False\<rparr> ?e 1 1"
    by (simp only: MIN_NUM_def zero [of "''x7.0''" ?e 1 1])
  also have "\<dots> = read_loop \<lparr>unread = ''7.0'', eof_indicator = False\<rparr> ?e 1 1" by (rule skip [OF x])
  also have "\<dots> = read_loop \<lparr>unread = ''.0'', eof_indicator = False\<rparr> (set_cell ?e 1 1 7) 1 2"
    using digit [OF d n(1) n(1), of "''.0''" ?e] by (simp only: v) simp
  also have "\<dots> = read_loop \<lparr>unread = ''0'', eof_indicator = False\<rparr> (set_cell ?e 1 1 7) 1 3"
    using dot [of 1 2 "''0''" "set_cell ?e 1 1 7"] by simp
  also have "\<dots> = read_loop \<lparr>unread = [], eof_indicator = False\<rparr> (set_cell ?e 1 1 7) 1 3"
    by (rule zero)
  also have "\<dots> = set_cell ?e 1 1 7" by (rule fin)
  finally have 1: "read_board \<lparr>unread = ''0x7.0'', eof_indicator = False\<rparr> ?e = set_cell ?e 1 1 7" .
  have 2: "read_loop \<lparr>unread = ''7123'', eof_indicator = False\<rparr> ?e 9 9 = set_cell ?e 9 9 7"
    using digit [OF d n(2) n(2), of "''123''" ?e] by (simp only: v) simp
  have 3: "read_loop \<lparr>unread = ''.123'', eof_indicator = False\<rparr> ?e 9 9 = ?e"
    using dot [OF n(2) n(2), of "''123''" ?e] by simp
  from x d n 1 2 3 show ?thesis by (simp only:) simp
qed

end
